theory Spec2Isabelle
  imports Main "HOL-Library.Signed_Division" "HOL-Library.Multiset"
begin

section \<open>Data model of the goutte LRU cache (cache.go, heap.go)\<close>

text \<open>
  Instants (\<open>time.Time\<close>) are natural numbers counted from the zero instant, so
  \<open>IsZero t\<close> is \<open>t = 0\<close>; \<open>time.Now()\<close> is a parameter \<open>now\<close> of every operation that
  reads the clock. Durations are signed integers. Pointers (\<open>*list.Element\<close> with its
  \<open>*entry\<close>, and \<open>*expEntry\<close>) are addresses into two stores kept in the cache state,
  because the entry and the heap share the expiration records. Fresh addresses come
  from two allocation counters; the stores are total functions whose initial content
  is never read, since an address is only read after its allocation. The mutex and the two channels are not part of the
  state: every operation below is one critical section, and \<open>signalExpirationUpdate\<close>
  (a non-blocking send on \<open>updateCh\<close>) changes nothing of it. The zero value of the
  value type \<open>V\<close> is the \<open>0\<close> of class \<open>zero\<close>. \<open>Add\<close> is only called with a
  positive duration.
\<close>

type_synonym time = nat
type_synonym duration = int
type_synonym addr = nat

definition IsZero :: "time \<Rightarrow> bool" where
  "IsZero t \<longleftrightarrow> t = 0"

definition Before :: "time \<Rightarrow> time \<Rightarrow> bool" where
  "Before t u \<longleftrightarrow> t < u"

definition After :: "time \<Rightarrow> time \<Rightarrow> bool" where
  "After t u \<longleftrightarrow> u < t"

definition Add :: "time \<Rightarrow> duration \<Rightarrow> time" where
  "Add t d = nat (int t + d)"

datatype error = InvalidConfiguration | IndexOutOfRange

text \<open>
  The outcome of a call that may panic: the state is kept in both cases, as it is at
  the return or at the panic.
\<close>

datatype ('a, 's) outcome = Ok (result: 'a) (state_of: 's) | Panic (err: error) (state_of: 's)

record 'k expEntry =
  ekey :: 'k
  eexpiration :: time
  index :: int
  canceled :: bool

record ('k, 'v) entry =
  key :: 'k
  val :: 'v
  expiration :: time
  exp :: "addr option"

record ('k, 'v) Cache =
  capacity :: int
  ll :: "addr list"
  cache :: "'k \<rightharpoonup> addr"
  expHeap :: "addr list"
  elems :: "addr \<Rightarrow> ('k, 'v) entry"
  recs :: "addr \<Rightarrow> 'k expEntry"
  nextElem :: addr
  nextRec :: addr

section \<open>The expiration heap (heap.go and container/heap)\<close>

type_synonym 'k hp = "addr list \<times> (addr \<Rightarrow> 'k expEntry)"

definition Len :: "'k hp \<Rightarrow> int" where
  "Len H = int (length (fst H))"

definition inb :: "'k hp \<Rightarrow> int \<Rightarrow> bool" where
  "inb H i \<longleftrightarrow> 0 \<le> i \<and> i < Len H"

definition Less :: "'k hp \<Rightarrow> int \<Rightarrow> int \<Rightarrow> bool" where
  "Less H i j \<longleftrightarrow>
     Before (eexpiration (snd H (fst H ! nat i))) (eexpiration (snd H (fst H ! nat j)))"

definition Swap :: "'k hp \<Rightarrow> int \<Rightarrow> int \<Rightarrow> 'k hp" where
  "Swap H i j =
     (let h = fst H;
          h' = h[nat i := h ! nat j, nat j := h ! nat i];
          r1 = (snd H)(h' ! nat i := (snd H (h' ! nat i))\<lparr>index := i\<rparr>);
          r2 = r1(h' ! nat j := (r1 (h' ! nat j))\<lparr>index := j\<rparr>)
      in (h', r2))"

definition Push :: "'k hp \<Rightarrow> addr \<Rightarrow> 'k hp" where
  "Push H x = (let n = Len H in (fst H @ [x], (snd H)(x := (snd H x)\<lparr>index := n\<rparr>)))"

definition Pop :: "'k hp \<Rightarrow> (addr, 'k hp) outcome" where
  "Pop H =
     (let old = fst H; n = Len H
      in if \<not> inb H (n - 1) then Panic IndexOutOfRange H
         else let item = old ! nat (n - 1)
              in Ok item (take (nat (n - 1)) old, (snd H)(item := (snd H item)\<lparr>index := - 1\<rparr>)))"

text \<open>
  \<open>up\<close> and \<open>down\<close> of Go's container/heap, and below them its \<open>Push\<close>, \<open>Pop\<close>,
  \<open>Fix\<close> and \<open>Init\<close> (\<open>heap_Push\<close>, \<open>heap_Pop\<close>, \<open>heap_Fix\<close>, \<open>heap_Init\<close>), which call
  the methods of heap.go. \<open>Less\<close> and \<open>Swap\<close> index the slice, so an index outside it
  panics before the comparison; Go's \<open>/\<close> truncates towards zero (\<open>sdiv\<close>). \<open>down_loop\<close>
  returns the last position, which \<open>down\<close> compares with the first.
\<close>

function up :: "'k hp \<Rightarrow> int \<Rightarrow> (unit, 'k hp) outcome" where
  "up H j =
     (let i = (j - 1) sdiv 2
      in if i = j then Ok () H
         else if \<not> (inb H j \<and> inb H i) then Panic IndexOutOfRange H
         else if \<not> Less H j i then Ok () H
         else up (Swap H i j) i)"
  by pat_completeness auto
termination
proof (relation "measure (\<lambda>(H, j). nat j)", goal_cases)
  case 1
  show ?case by simp
next
  case (2 H j i)
  then show ?case
    by (auto simp: inb_def signed_divide_int_def sgn_if split: if_splits)
qed

function down_loop :: "'k hp \<Rightarrow> int \<Rightarrow> int \<Rightarrow> (int, 'k hp) outcome" where
  "down_loop H i n =
     (let j1 = 2 * i + 1
      in if j1 \<ge> n \<or> j1 < 0 then Ok i H
         else let j2 = j1 + 1
              in if j2 < n \<and> \<not> (inb H j2 \<and> inb H j1) then Panic IndexOutOfRange H
                 else let j = (if j2 < n \<and> Less H j2 j1 then j2 else j1)
                      in if \<not> (inb H j \<and> inb H i) then Panic IndexOutOfRange H
                         else if \<not> Less H j i then Ok i H
                         else down_loop (Swap H i j) j n)"
  by pat_completeness auto
termination
  by (relation "measure (\<lambda>(H, i, n). nat (n - i))") (auto split: if_splits)

definition down :: "'k hp \<Rightarrow> int \<Rightarrow> int \<Rightarrow> (bool, 'k hp) outcome" where
  "down H i0 n =
     (case down_loop H i0 n of
        Ok i H' \<Rightarrow> Ok (i > i0) H'
      | Panic e H' \<Rightarrow> Panic e H')"

definition heap_Push :: "'k hp \<Rightarrow> addr \<Rightarrow> (unit, 'k hp) outcome" where
  "heap_Push H x = (let H1 = Push H x in up H1 (Len H1 - 1))"

definition heap_Pop :: "'k hp \<Rightarrow> (addr, 'k hp) outcome" where
  "heap_Pop H =
     (let n = Len H - 1
      in if \<not> (inb H 0 \<and> inb H n) then Panic IndexOutOfRange H
         else case down (Swap H 0 n) 0 n of
                Panic e H' \<Rightarrow> Panic e H'
              | Ok _ H' \<Rightarrow> Pop H')"

definition heap_Fix :: "'k hp \<Rightarrow> int \<Rightarrow> (unit, 'k hp) outcome" where
  "heap_Fix H i =
     (case down H i (Len H) of
        Panic e H' \<Rightarrow> Panic e H'
      | Ok moved H' \<Rightarrow> if \<not> moved then up H' i else Ok () H')"

function heap_Init_loop :: "'k hp \<Rightarrow> int \<Rightarrow> int \<Rightarrow> (unit, 'k hp) outcome" where
  "heap_Init_loop H i n =
     (if i \<ge> 0
      then case down H i n of
             Panic e H' \<Rightarrow> Panic e H'
           | Ok _ H' \<Rightarrow> heap_Init_loop H' (i - 1) n
      else Ok () H)"
  by pat_completeness auto
termination
  by (relation "measure (\<lambda>(H, i, n). nat (i + 1))") auto

definition heap_Init :: "'k hp \<Rightarrow> (unit, 'k hp) outcome" where
  "heap_Init H = (let n = Len H in heap_Init_loop H (n sdiv 2 - 1) n)"

section \<open>The recency list (container/list)\<close>

text \<open>
  The list holds each element once, front (most recently used) first. \<open>Remove\<close> and
  \<open>MoveToFront\<close> leave the list alone when the element is not one of its own.
\<close>

definition PushFront :: "addr \<Rightarrow> addr list \<Rightarrow> addr list" where
  "PushFront e l = e # l"

definition Remove :: "addr \<Rightarrow> addr list \<Rightarrow> addr list" where
  "Remove e l = remove1 e l"

definition MoveToFront :: "addr \<Rightarrow> addr list \<Rightarrow> addr list" where
  "MoveToFront e l = (if e \<notin> set l \<or> hd l = e then l else e # remove1 e l)"

definition Back :: "addr list \<Rightarrow> addr option" where
  "Back l = (case l of [] \<Rightarrow> None | _ \<Rightarrow> Some (last l))"

section \<open>The cache operations (cache.go)\<close>

definition hp_of :: "('k, 'v) Cache \<Rightarrow> 'k hp" where
  "hp_of c = (expHeap c, recs c)"

definition set_hp :: "'k hp \<Rightarrow> ('k, 'v) Cache \<Rightarrow> ('k, 'v) Cache" where
  "set_hp H c = c\<lparr>expHeap := fst H, recs := snd H\<rparr>"

definition with_hp :: "('a, 'k hp) outcome \<Rightarrow> ('k, 'v) Cache \<Rightarrow> ('a, ('k, 'v) Cache) outcome" where
  "with_hp out c =
     (case out of
        Ok x H \<Rightarrow> Ok x (set_hp H c)
      | Panic e H \<Rightarrow> Panic e (set_hp H c))"

definition NewCache :: "int \<Rightarrow> error + ('k, 'v) Cache" where
  "NewCache capacity' =
     (if capacity' \<le> 0 then Inl InvalidConfiguration
      else let c = \<lparr>capacity = capacity', ll = [], cache = Map.empty, expHeap = [],
                      elems = (\<lambda>_. undefined), recs = (\<lambda>_. undefined),
                      nextElem = 0, nextRec = 0\<rparr>
           in case with_hp (heap_Init (hp_of c)) c of
                Ok _ c' \<Rightarrow> Inr c'
              | Panic e _ \<Rightarrow> Inl e)"

definition Get :: "'k \<Rightarrow> time \<Rightarrow> ('k, 'v::zero) Cache \<Rightarrow> ('v \<times> bool) \<times> ('k, 'v) Cache" where
  "Get k now c =
     (case cache c k of
        Some ele \<Rightarrow>
          let ent = elems c ele
          in if \<not> IsZero (expiration ent) \<and> After now (expiration ent)
             then ((0, False), c\<lparr>ll := Remove ele (ll c), cache := (cache c)(k := None)\<rparr>)
             else ((val ent, True), c\<lparr>ll := MoveToFront ele (ll c)\<rparr>)
      | None \<Rightarrow> ((0, False), c))"

text \<open>
  \<open>newExp\<close> is the allocation \<open>&expEntry{key, expiration}\<close>, attached to the entry
  \<open>ele\<close> and pushed on the heap (lines 103-105 and 125-127).
\<close>

definition newExp :: "'k \<Rightarrow> time \<Rightarrow> addr \<Rightarrow> ('k, 'v) Cache \<Rightarrow> (unit, ('k, 'v) Cache) outcome" where
  "newExp k expiration' ele c =
     (let expE = nextRec c;
          c1 = c\<lparr>recs := (recs c)(expE := \<lparr>ekey = k, eexpiration = expiration',
                                             index = 0, canceled = False\<rparr>),
                 nextRec := Suc expE\<rparr>;
          c2 = c1\<lparr>elems := (elems c1)(ele := (elems c1 ele)\<lparr>exp := Some expE\<rparr>)\<rparr>
      in with_hp (heap_Push (hp_of c2) expE) c2)"

definition removeOldestLocked :: "('k, 'v) Cache \<Rightarrow> ('k, 'v) Cache" where
  "removeOldestLocked c =
     (case Back (ll c) of
        None \<Rightarrow> c
      | Some ele \<Rightarrow>
          let ent = elems c ele;
              c1 = (case exp ent of
                      Some r \<Rightarrow> c\<lparr>recs := (recs c)(r := (recs c r)\<lparr>canceled := True\<rparr>)\<rparr>
                    | None \<Rightarrow> c)
          in c1\<lparr>ll := Remove ele (ll c1), cache := (cache c1)(key ent := None)\<rparr>)"

definition SetWithTTL ::
  "'k \<Rightarrow> 'v \<Rightarrow> duration \<Rightarrow> time \<Rightarrow> ('k, 'v) Cache \<Rightarrow> (unit, ('k, 'v) Cache) outcome" where
  "SetWithTTL k v ttl now c =
     (let expiration' = (if ttl > 0 then Add now ttl else 0)
      in case cache c k of
           Some ele \<Rightarrow>
             let c1 = c\<lparr>elems := (elems c)(ele := (elems c ele)\<lparr>val := v, expiration := expiration'\<rparr>),
                        ll := MoveToFront ele (ll c)\<rparr>
             in if ttl > 0
                then (case exp (elems c1 ele) of
                        Some r \<Rightarrow>
                          let c2 = c1\<lparr>recs := (recs c1)(r := (recs c1 r)\<lparr>eexpiration := expiration'\<rparr>)\<rparr>
                          in with_hp (heap_Fix (hp_of c2) (index (recs c2 r))) c2
                      | None \<Rightarrow> newExp k expiration' ele c1)
                else (case exp (elems c1 ele) of
                        Some r \<Rightarrow>
                          Ok () (c1\<lparr>recs := (recs c1)(r := (recs c1 r)\<lparr>canceled := True\<rparr>),
                                    elems := (elems c1)(ele := (elems c1 ele)\<lparr>exp := None\<rparr>)\<rparr>)
                      | None \<Rightarrow> Ok () c1)
         | None \<Rightarrow>
             let ele = nextElem c;
                 c1 = c\<lparr>elems := (elems c)(ele := \<lparr>key = k, val = v, expiration = expiration',
                                                   exp = None\<rparr>),
                        nextElem := Suc ele,
                        ll := PushFront ele (ll c),
                        cache := (cache c)(k \<mapsto> ele)\<rparr>
             in case (if ttl > 0 then newExp k expiration' ele c1 else Ok () c1) of
                  Panic e c2 \<Rightarrow> Panic e c2
                | Ok _ c2 \<Rightarrow>
                    if int (length (ll c2)) > capacity c2
                    then Ok () (removeOldestLocked c2)
                    else Ok () c2)"

definition Set :: "'k \<Rightarrow> 'v \<Rightarrow> time \<Rightarrow> ('k, 'v) Cache \<Rightarrow> (unit, ('k, 'v) Cache) outcome" where
  "Set k v now c = SetWithTTL k v 0 now c"

definition Delete :: "'k \<Rightarrow> ('k, 'v) Cache \<Rightarrow> ('k, 'v) Cache" where
  "Delete k c =
     (case cache c k of
        Some ele \<Rightarrow>
          let ent = elems c ele;
              c1 = (case exp ent of
                      Some r \<Rightarrow> c\<lparr>recs := (recs c)(r := (recs c r)\<lparr>canceled := True\<rparr>)\<rparr>
                    | None \<Rightarrow> c)
          in c1\<lparr>ll := Remove ele (ll c1), cache := (cache c1)(k := None)\<rparr>
      | None \<Rightarrow> c)"

definition Dump :: "('k, 'v) Cache \<Rightarrow> (unit, ('k, 'v) Cache) outcome" where
  "Dump c =
     (let c1 = c\<lparr>ll := [], cache := Map.empty, expHeap := []\<rparr>
      in with_hp (heap_Init (hp_of c1)) c1)"

text \<open>
  The loop of \<open>SetCapacity\<close> (lines 281-283). On an empty list \<open>removeOldestLocked\<close>
  returns at once, so with a negative capacity the loop would spin: not returning is
  the value \<open>None\<close>.
\<close>

partial_function (option) evictLoop :: "('k, 'v) Cache \<Rightarrow> ('k, 'v) Cache option" where
  "evictLoop c =
     (if int (length (ll c)) > capacity c then evictLoop (removeOldestLocked c) else Some c)"

definition SetCapacity :: "int \<Rightarrow> ('k, 'v) Cache \<Rightarrow> (unit, ('k, 'v) Cache) outcome option" where
  "SetCapacity newCapacity c =
     (if newCapacity \<le> 0 then Some (Panic InvalidConfiguration c)
      else case evictLoop (c\<lparr>capacity := newCapacity\<rparr>) of
             None \<Rightarrow> None
           | Some c' \<Rightarrow> Some (Ok () c'))"

section \<open>Properties of the heap operations\<close>

declare up.simps [simp del] down_loop.simps [simp del] heap_Init_loop.simps [simp del]

definition unindexed :: "'k expEntry \<Rightarrow> 'k \<times> time \<times> bool" where
  "unindexed r = (ekey r, eexpiration r, canceled r)"

definition hp_wf :: "'k hp \<Rightarrow> bool" where
  "hp_wf H \<longleftrightarrow> distinct (fst H) \<and> (\<forall>i<length (fst H). index (snd H (fst H ! i)) = int i)"

definition hp_same :: "'k hp \<Rightarrow> 'k hp \<Rightarrow> bool" where
  "hp_same H H' \<longleftrightarrow>
     mset (fst H') = mset (fst H) \<and>
     (\<forall>r. unindexed (snd H' r) = unindexed (snd H r)) \<and>
     (\<forall>r. r \<notin> set (fst H) \<longrightarrow> snd H' r = snd H r)"

lemma hp_same_refl: "hp_same H H"
  by (simp add: hp_same_def)

lemma hp_same_trans: "hp_same H H1 \<Longrightarrow> hp_same H1 H2 \<Longrightarrow> hp_same H H2"
  unfolding hp_same_def by (metis mset_eq_setD)

lemma hp_same_length: "hp_same H H' \<Longrightarrow> length (fst H') = length (fst H)"
  unfolding hp_same_def by (metis size_mset)

lemma hp_same_Len: "hp_same H H' \<Longrightarrow> Len H' = Len H"
  by (simp add: Len_def hp_same_length)

lemma hp_same_inb: "hp_same H H' \<Longrightarrow> inb H' i = inb H i"
  by (simp add: inb_def hp_same_Len)

lemma hp_same_set: "hp_same H H' \<Longrightarrow> set (fst H') = set (fst H)"
  unfolding hp_same_def by (metis mset_eq_setD)

lemma Swap_fst: "fst (Swap H i j) = (fst H)[nat i := fst H ! nat j, nat j := fst H ! nat i]"
  by (simp add: Swap_def Let_def)

lemma Swap_same: "inb H i \<Longrightarrow> inb H j \<Longrightarrow> hp_same H (Swap H i j)"
  unfolding hp_same_def
proof (intro conjI allI impI)
  assume a: "inb H i" "inb H j"
  then have n: "nat i < length (fst H)" "nat j < length (fst H)"
    by (auto simp: inb_def Len_def)
  show "mset (fst (Swap H i j)) = mset (fst H)"
    using n by (simp add: Swap_fst mset_swap)
  show "unindexed (snd (Swap H i j) r) = unindexed (snd H r)" for r
    by (simp add: Swap_def Let_def unindexed_def)
  show "snd (Swap H i j) r = snd H r" if "r \<notin> set (fst H)" for r
  proof -
    have "fst H ! nat i \<noteq> r" "fst H ! nat j \<noteq> r"
      using that n by auto
    then show ?thesis
      using n by (simp add: Swap_def Let_def nth_list_update)
  qed
qed

lemma hp_same_distinct: "hp_same H H' \<Longrightarrow> distinct (fst H') = distinct (fst H)"
  unfolding hp_same_def by (metis mset_eq_imp_distinct_iff)

lemma Swap_index:
  assumes "inb H i" "inb H j" "hp_wf H" "p < length (fst H)"
  shows "index (snd (Swap H i j) (fst (Swap H i j) ! p)) = int p"
proof -
  let ?h = "fst H"
  have n: "nat i < length ?h" "nat j < length ?h" and d: "distinct ?h"
    and ix: "\<And>q. q < length ?h \<Longrightarrow> index (snd H (?h ! q)) = int q"
    and ij: "int (nat i) = i" "int (nat j) = j"
    using assms by (auto simp: inb_def Len_def hp_wf_def)
  have neq: "\<And>a b. a < length ?h \<Longrightarrow> b < length ?h \<Longrightarrow> a \<noteq> b \<Longrightarrow> ?h ! a \<noteq> ?h ! b"
    using d by (simp add: nth_eq_iff_index_eq)
  consider "p = nat j" | "p \<noteq> nat j" "p = nat i" | "p \<noteq> nat j" "p \<noteq> nat i"
    by blast
  then show ?thesis
  proof cases
    case 1
    then show ?thesis using n ij by (simp add: Swap_def Let_def)
  next
    case 2
    then have "?h ! nat i \<noteq> ?h ! nat j" using neq n by metis
    then show ?thesis using 2 n ij by (simp add: Swap_def Let_def nth_list_update)
  next
    case 3
    then have "?h ! p \<noteq> ?h ! nat j" "?h ! p \<noteq> ?h ! nat i"
      using neq n assms(4) by metis+
    then show ?thesis using 3 n ix[OF assms(4)] by (simp add: Swap_def Let_def nth_list_update)
  qed
qed

lemma Swap_wf: "inb H i \<Longrightarrow> inb H j \<Longrightarrow> hp_wf H \<Longrightarrow> hp_wf (Swap H i j)"
  using Swap_index[of H i j] hp_same_distinct[OF Swap_same, of H i j]
    hp_same_length[OF Swap_same, of H i j]
  by (simp add: hp_wf_def)

lemma up_same: "hp_same H (state_of (up H j))"
proof (induction H j rule: up.induct)
  case (1 H j)
  show ?case
    apply (subst up.simps)
    using 1 by (auto simp: Let_def hp_same_refl intro: hp_same_trans Swap_same)
qed

lemma up_wf: "hp_wf H \<Longrightarrow> hp_wf (state_of (up H j))"
proof (induction H j rule: up.induct)
  case (1 H j)
  show ?case
    apply (subst up.simps)
    using 1 by (auto simp: Let_def intro: Swap_wf)
qed

lemma up_ok: "inb H j \<or> j = - 1 \<or> j = 0 \<Longrightarrow> is_Ok (up H j)"
proof (induction H j rule: up.induct)
  case (1 H j)
  have par: "inb H j \<Longrightarrow> inb H ((j - 1) sdiv 2)"
    by (auto simp: inb_def signed_divide_int_def sgn_if)
  have m1: "j = - 1 \<or> j = 0 \<Longrightarrow> (j - 1) sdiv 2 = j"
    by (auto simp: signed_divide_int_def)
  show ?case
    apply (subst up.simps)
    using 1 par m1 by (auto simp: Let_def hp_same_inb[OF Swap_same])
qed

lemma down_loop_same: "hp_same H (state_of (down_loop H i n))"
proof (induction H i n rule: down_loop.induct)
  case (1 H i n)
  show ?case
    apply (subst down_loop.simps)
    using 1 by (auto simp: Let_def hp_same_refl intro: hp_same_trans Swap_same)
qed

lemma down_loop_wf: "hp_wf H \<Longrightarrow> hp_wf (state_of (down_loop H i n))"
proof (induction H i n rule: down_loop.induct)
  case (1 H i n)
  show ?case
    apply (subst down_loop.simps)
    using 1 by (auto simp: Let_def Swap_wf)
qed

lemma down_loop_ok: "n \<le> Len H \<Longrightarrow> is_Ok (down_loop H i n)"
proof (induction H i n rule: down_loop.induct)
  case (1 H i n)
  show ?case
    apply (subst down_loop.simps)
    using 1 by (auto simp: Let_def hp_same_Len[OF Swap_same] inb_def)
qed

lemma down_loop_nth: "n \<le> int p \<Longrightarrow> fst (state_of (down_loop H i n)) ! p = fst H ! p"
proof (induction H i n rule: down_loop.induct)
  case (1 H i n)
  have sw: "\<And>j. 0 \<le> i \<Longrightarrow> i < n \<Longrightarrow> 0 \<le> j \<Longrightarrow> j < n \<Longrightarrow> fst (Swap H i j) ! p = fst H ! p"
    using 1(2) by (simp add: Swap_fst)
  show ?case
    apply (subst down_loop.simps)
    using 1 sw by (auto simp: Let_def)
qed

lemma down_state: "state_of (down H i n) = state_of (down_loop H i n)"
  by (cases "down_loop H i n") (simp_all add: down_def)

lemma down_is_Ok: "is_Ok (down H i n) = is_Ok (down_loop H i n)"
  by (cases "down_loop H i n") (simp_all add: down_def)

lemma down_loop_neg: "i < 0 \<Longrightarrow> down_loop H i n = Ok i H"
  by (subst down_loop.simps) simp

lemma heap_Fix_cases:
  obtains (panic) e H1 where "down H i (Len H) = Panic e H1" "heap_Fix H i = Panic e H1"
  | (moved) H1 where "down H i (Len H) = Ok True H1" "heap_Fix H i = Ok () H1"
  | (stay) H1 where "down H i (Len H) = Ok False H1" "heap_Fix H i = up H1 i"
  by (cases "down H i (Len H)") (auto simp: heap_Fix_def)

lemma heap_Fix_same: "hp_same H (state_of (heap_Fix H i))"
proof (cases H i rule: heap_Fix_cases)
  case (stay H1)
  then have "hp_same H H1"
    using down_loop_same[of H i "Len H"] by (simp flip: down_state)
  then show ?thesis using stay up_same[of H1 i] by (auto intro: hp_same_trans)
qed (use down_loop_same[of H i "Len H"] in \<open>simp_all flip: down_state\<close>)

lemma heap_Fix_wf: "hp_wf H \<Longrightarrow> hp_wf (state_of (heap_Fix H i))"
proof (cases H i rule: heap_Fix_cases)
  case (stay H1)
  assume "hp_wf H"
  then have "hp_wf H1"
    using stay down_loop_wf[of H i "Len H"] by (simp flip: down_state)
  then show ?thesis using stay up_wf[of H1 i] by simp
qed (use down_loop_wf[of H i "Len H"] in \<open>simp_all flip: down_state\<close>)

lemma heap_Fix_ok: "inb H i \<or> i = - 1 \<Longrightarrow> is_Ok (heap_Fix H i)"
proof (cases H i rule: heap_Fix_cases)
  case (panic e H1)
  then show ?thesis using down_loop_ok[of "Len H" H i] by (simp flip: down_is_Ok)
next
  case (moved H1)
  then show ?thesis by simp
next
  case (stay H1)
  assume a: "inb H i \<or> i = - 1"
  have "hp_same H H1"
    using stay down_loop_same[of H i "Len H"] by (simp flip: down_state)
  then have "inb H1 i \<or> i = - 1" using a by (simp add: hp_same_inb)
  then show ?thesis using stay up_ok[of H1 i] by auto
qed

lemma Push_wf: "x \<notin> set (fst H) \<Longrightarrow> hp_wf H \<Longrightarrow> hp_wf (Push H x)"
  by (auto simp: hp_wf_def Push_def Let_def Len_def nth_append)

lemma heap_Push_ok: "is_Ok (heap_Push H x)"
  unfolding heap_Push_def Let_def
  by (rule up_ok) (simp add: inb_def Len_def Push_def)

lemma heap_Push_wf: "x \<notin> set (fst H) \<Longrightarrow> hp_wf H \<Longrightarrow> hp_wf (state_of (heap_Push H x))"
  unfolding heap_Push_def Let_def by (intro up_wf Push_wf)

lemma heap_Push_mset: "mset (fst (state_of (heap_Push H x))) = add_mset x (mset (fst H))"
  using up_same[of "Push H x" "Len (Push H x) - 1"]
  by (simp add: heap_Push_def Let_def hp_same_def Push_def)

lemma heap_Push_unindexed:
  "unindexed (snd (state_of (heap_Push H x)) r) = unindexed (snd H r)"
  using up_same[of "Push H x" "Len (Push H x) - 1"]
  by (simp add: heap_Push_def Let_def hp_same_def Push_def unindexed_def)

lemma heap_Pop_nonempty:
  assumes "fst H \<noteq> []"
  obtains H1 where "hp_same H H1" "hp_wf H \<Longrightarrow> hp_wf H1"
    "fst H1 ! (length (fst H) - 1) = fst H ! 0"
    "heap_Pop H = Ok (fst H ! 0) (butlast (fst H1), (snd H1)(fst H ! 0 := (snd H1 (fst H ! 0))\<lparr>index := - 1\<rparr>))"
proof -
  let ?n = "Len H - 1"
  let ?S = "Swap H 0 ?n"
  let ?H1 = "state_of (down ?S 0 ?n)"
  have len: "0 < length (fst H)" using assms by simp
  then have inb: "inb H 0" "inb H ?n" by (auto simp: inb_def Len_def)
  have nn: "nat ?n = length (fst H) - 1" by (simp add: Len_def)
  have sS: "hp_same H ?S" using inb by (rule Swap_same)
  have s1: "hp_same ?S ?H1" by (simp add: down_state down_loop_same)
  have same: "hp_same H ?H1" using sS s1 by (rule hp_same_trans)
  have wf: "hp_wf H \<Longrightarrow> hp_wf ?H1"
    using inb by (simp add: down_state down_loop_wf Swap_wf)
  have "fst ?H1 ! (length (fst H) - 1) = fst ?S ! (length (fst H) - 1)"
    unfolding down_state by (rule down_loop_nth) (simp add: Len_def)
  also have "\<dots> = fst H ! 0"
    using len by (simp add: Swap_fst nn)
  finally have last: "fst ?H1 ! (length (fst H) - 1) = fst H ! 0" .
  have ok: "is_Ok (down ?S 0 ?n)"
    unfolding down_is_Ok by (rule down_loop_ok) (simp add: hp_same_Len[OF sS])
  have l1: "length (fst ?H1) = length (fst H)" using same by (rule hp_same_length)
  have "heap_Pop H = Pop ?H1"
    using inb ok by (cases "down ?S 0 ?n") (simp_all add: heap_Pop_def Let_def)
  also have "\<dots> = Ok (fst H ! 0) (butlast (fst ?H1), (snd ?H1)(fst H ! 0 := (snd ?H1 (fst H ! 0))\<lparr>index := - 1\<rparr>))"
    using len last l1 by (simp add: Pop_def Let_def inb_def Len_def butlast_conv_take nat_diff_distrib')
  finally show ?thesis using that[OF same wf last] by simp
qed

lemma heap_Pop_facts:
  assumes "fst H \<noteq> []"
  shows "\<exists>H'. heap_Pop H = Ok (fst H ! 0) H' \<and>
           length (fst H') = length (fst H) - 1 \<and>
           mset (fst H') = mset (fst H) - {#fst H ! 0#} \<and>
           (\<forall>r. unindexed (snd H' r) = unindexed (snd H r)) \<and>
           (\<forall>r. r \<notin> set (fst H) \<longrightarrow> snd H' r = snd H r) \<and>
           index (snd H' (fst H ! 0)) = - 1 \<and>
           (hp_wf H \<longrightarrow> hp_wf H' \<and> fst H ! 0 \<notin> set (fst H'))"
proof -
  obtain H1 where same: "hp_same H H1" and wf: "hp_wf H \<Longrightarrow> hp_wf H1"
    and last: "fst H1 ! (length (fst H) - 1) = fst H ! 0"
    and pop: "heap_Pop H = Ok (fst H ! 0) (butlast (fst H1), (snd H1)(fst H ! 0 := (snd H1 (fst H ! 0))\<lparr>index := - 1\<rparr>))"
    using heap_Pop_nonempty[OF assms] by blast
  let ?x = "fst H ! 0"
  let ?H' = "(butlast (fst H1), (snd H1)(?x := (snd H1 ?x)\<lparr>index := - 1\<rparr>))"
  have l1: "length (fst H1) = length (fst H)" using same by (rule hp_same_length)
  then have ne: "fst H1 \<noteq> []" using assms by auto
  have lastx: "last (fst H1) = ?x" using last l1 ne by (simp add: last_conv_nth)
  have split: "fst H1 = butlast (fst H1) @ [?x]"
    using ne lastx by (metis append_butlast_last_id)
  have "mset (fst H1) = add_mset ?x (mset (butlast (fst H1)))"
    by (subst split) simp
  moreover have "mset (fst H1) = mset (fst H)" using same by (simp add: hp_same_def)
  ultimately have "mset (fst H) = add_mset ?x (mset (butlast (fst H1)))" by simp
  then have m: "mset (butlast (fst H1)) = mset (fst H) - {#?x#}" by simp
  have u: "\<forall>r. unindexed (snd ?H' r) = unindexed (snd H r)"
    using same by (simp add: hp_same_def unindexed_def)
  have w: "hp_wf H' \<and> ?x \<notin> set (fst H')" if "hp_wf H" "H' = ?H'" for H'
  proof -
    have w1: "hp_wf H1" using wf that by simp
    then have d: "distinct (butlast (fst H1) @ [?x])" using split by (simp add: hp_wf_def)
    then have nin: "?x \<notin> set (butlast (fst H1))" by simp
    have "index (snd H1 (butlast (fst H1) ! i)) = int i" if "i < length (butlast (fst H1))" for i
      using w1 that by (simp add: hp_wf_def nth_butlast)
    moreover have "butlast (fst H1) ! i \<noteq> ?x" if "i < length (butlast (fst H1))" for i
      using nin that nth_mem by metis
    ultimately show ?thesis using nin d that(2) by (auto simp: hp_wf_def)
  qed
  have inH: "?x \<in> set (fst H)" using assms by simp
  have f: "\<forall>r. r \<notin> set (fst H) \<longrightarrow> snd ?H' r = snd H r"
    using same inH by (auto simp: hp_same_def)
  show ?thesis
    using pop l1 m u f w by (intro exI[of _ ?H']) simp
qed

subsection \<open>The heap order\<close>

text \<open>
  The heap is a binary min-heap on the expirations: the record at position \<open>c > 0\<close> does
  not expire before the record at its parent position \<open>(c - 1) div 2\<close>. \<open>up\<close> and
  \<open>down\<close> restore this order when it fails at one position only, which is what
  \<open>heap.Push\<close>, \<open>heap.Pop\<close> and \<open>heap.Fix\<close> rely on.
\<close>

definition key_at :: "'k hp \<Rightarrow> int \<Rightarrow> time" where
  "key_at H p = eexpiration (snd H (fst H ! nat p))"

definition ok_at :: "'k hp \<Rightarrow> int \<Rightarrow> bool" where
  "ok_at H c \<longleftrightarrow> key_at H ((c - 1) div 2) \<le> key_at H c"

definition heap_ordered :: "'k hp \<Rightarrow> bool" where
  "heap_ordered H \<longleftrightarrow> (\<forall>c. 0 < c \<and> c < Len H \<longrightarrow> ok_at H c)"

lemma Less_key: "Less H i j \<longleftrightarrow> key_at H i < key_at H j"
  by (simp add: Less_def Before_def key_at_def)

lemma Swap_eexpiration: "eexpiration (snd (Swap H i j) r) = eexpiration (snd H r)"
  by (simp add: Swap_def Let_def)

lemma key_at_Swap:
  assumes "inb H i" "inb H j" "0 \<le> p"
  shows "key_at (Swap H i j) p = key_at H (if p = i then j else if p = j then i else p)"
proof -
  have n: "nat i < length (fst H)" "nat j < length (fst H)" "0 \<le> i" "0 \<le> j"
    using assms by (auto simp: inb_def Len_def)
  have "fst (Swap H i j) ! nat p = fst H ! nat (if p = i then j else if p = j then i else p)"
    using n assms(3) by (auto simp: Swap_fst nth_list_update)
  then show ?thesis by (simp add: key_at_def Swap_eexpiration)
qed

lemma child_iff: "0 < c \<Longrightarrow> (c - 1) div 2 = (i::int) \<longleftrightarrow> c = 2 * i + 1 \<or> c = 2 * i + 2"
  by presburger

lemma down_loop_leaf: "n \<le> 2 * i + 1 \<Longrightarrow> down_loop H i n = Ok i H"
  by (subst down_loop.simps) simp

lemma down_loop_step:
  assumes "0 \<le> i" "2 * i + 1 < n" "n \<le> Len H"
  shows "down_loop H i n =
     (let j = (if 2 * i + 2 < n \<and> Less H (2 * i + 2) (2 * i + 1) then 2 * i + 2 else 2 * i + 1)
      in if Less H j i then down_loop (Swap H i j) j n else Ok i H)"
proof -
  have e2: "2 * i + 1 + 1 = 2 * i + 2" by simp
  have in1: "inb H (2 * i + 1)" "inb H i" and in2: "2 * i + 2 < n \<Longrightarrow> inb H (2 * i + 2)"
    using assms by (auto simp: inb_def)
  have c: "\<not> (n \<le> 2 * i + 1 \<or> 2 * i + 1 < 0)" using assms by simp
  show ?thesis
    apply (subst down_loop.simps)
    unfolding Let_def e2
    using c in1 in2 by (cases "2 * i + 2 < n \<and> Less H (2 * i + 2) (2 * i + 1)") (simp_all only: if_True if_False simp_thms, auto)
qed

lemma down_loop_order:
  assumes "n \<le> Len H" "0 \<le> i"
    and "\<forall>c. 0 < c \<and> c < n \<and> c \<noteq> i \<and> (c - 1) div 2 \<noteq> i \<longrightarrow> ok_at H c"
    and "\<forall>c. 0 < i \<and> 0 < c \<and> c < n \<and> (c - 1) div 2 = i \<longrightarrow> key_at H ((i - 1) div 2) \<le> key_at H c"
  shows "(\<forall>c. 0 < c \<and> c < n \<and> c \<noteq> i \<longrightarrow> ok_at (state_of (down_loop H i n)) c) \<and>
         ((ok_at H i \<or> i < result (down_loop H i n)) \<longrightarrow> ok_at (state_of (down_loop H i n)) i)"
  using assms
proof (induction "nat (n - i)" arbitrary: H i rule: less_induct)
  case less
  let ?j1 = "2 * i + 1"
  let ?j2 = "2 * i + 2"
  note A = less.prems(3) and B = less.prems(4)
  show ?case
  proof (cases "?j1 \<ge> n")
    case True
    then have e: "down_loop H i n = Ok i H" by (rule down_loop_leaf)
    have "ok_at H c" if "0 < c" "c < n" "c \<noteq> i" for c
    proof -
      have "(c - 1) div 2 \<noteq> i" using that True child_iff[of c i] by auto
      then show ?thesis using A that by blast
    qed
    then show ?thesis using e by simp
  next
    case False
    then have j1: "?j1 < n" "0 \<le> ?j1" using less.prems(2) by auto
    have inbi: "inb H i" using j1 less.prems(1,2) by (auto simp: inb_def)
    define j where "j = (if ?j2 < n \<and> Less H ?j2 ?j1 then ?j2 else ?j1)"
    have jr: "inb H j" "i < j" "j < n" "j = ?j1 \<or> j = ?j2" "0 < j"
      using j1 less.prems(1,2) by (auto simp: j_def inb_def)
    have small: "key_at H j \<le> key_at H ?j1" "?j2 < n \<Longrightarrow> key_at H j \<le> key_at H ?j2"
      by (auto simp: j_def Less_key)
    have step: "down_loop H i n = (if Less H j i then down_loop (Swap H i j) j n else Ok i H)"
      using down_loop_step[OF less.prems(2) j1(1) less.prems(1)] by (simp add: Let_def j_def)
    show ?thesis
    proof (cases "Less H j i")
      case nl: False
      have e: "down_loop H i n = Ok i H" using step nl by simp
      have ki: "key_at H i \<le> key_at H j" using nl by (simp add: Less_key)
      have "ok_at H c" if c: "0 < c" "c < n" "c \<noteq> i" for c
      proof (cases "(c - 1) div 2 = i")
        case True
        then have "c = ?j1 \<or> c = ?j2" using child_iff[OF c(1), of i] by simp
        then have "key_at H i \<le> key_at H c" using ki small c(2) by auto
        then show ?thesis using True by (simp add: ok_at_def)
      next
        case False
        then show ?thesis using A c by blast
      qed
      then show ?thesis using e by simp
    next
      case l: True
      let ?S = "Swap H i j"
      have e: "down_loop H i n = down_loop ?S j n" using step l by simp
      have kS: "key_at ?S p = key_at H (if p = i then j else if p = j then i else p)" if "0 \<le> p" for p
        using key_at_Swap[OF inbi jr(1) that] .
      have lt: "key_at H j < key_at H i" using l by (simp add: Less_key)
      have pj: "(j - 1) div 2 = i" using jr(4,5) child_iff[of j i] by auto
      have AS: "\<forall>c. 0 < c \<and> c < n \<and> c \<noteq> j \<and> (c - 1) div 2 \<noteq> j \<longrightarrow> ok_at ?S c"
      proof (intro allI impI)
        fix c assume c: "0 < c \<and> c < n \<and> c \<noteq> j \<and> (c - 1) div 2 \<noteq> j"
        then have p0: "0 \<le> (c - 1) div 2" by auto
        show "ok_at ?S c"
        proof (cases "c = i")
          case True
          then have i0: "0 < i" using c by simp
          have pi: "(i - 1) div 2 \<noteq> i" "(i - 1) div 2 \<noteq> j" "0 \<le> (i - 1) div 2"
            using i0 jr(2) by auto
          have "key_at H ((i - 1) div 2) \<le> key_at H j" using B i0 jr(3,5) pj by blast
          then show ?thesis using True pi i0 kS[of i] kS[of "(i - 1) div 2"] by (simp add: ok_at_def)
        next
          case ci: False
          show ?thesis
          proof (cases "(c - 1) div 2 = i")
            case True
            then have "c = ?j1 \<or> c = ?j2" using child_iff[of c i] c by simp
            then have "key_at H j \<le> key_at H c" using small c by auto
            then show ?thesis using True ci c jr(2) kS[of c] kS[of i] less.prems(2)
              by (simp add: ok_at_def)
          next
            case False
            then have "ok_at H c" using A c ci by blast
            then show ?thesis using False ci c kS[of c] kS[of "(c - 1) div 2"] p0
              by (simp add: ok_at_def)
          qed
        qed
      qed
      have BS: "\<forall>c. 0 < j \<and> 0 < c \<and> c < n \<and> (c - 1) div 2 = j \<longrightarrow>
                  key_at ?S ((j - 1) div 2) \<le> key_at ?S c"
      proof (intro allI impI)
        fix c assume c: "0 < j \<and> 0 < c \<and> c < n \<and> (c - 1) div 2 = j"
        have cne: "c \<noteq> i" "c \<noteq> j" using c jr(2) less.prems(2) by auto
        have "(c - 1) div 2 \<noteq> i" using c jr(2) by simp
        then have "ok_at H c" using A c cne by blast
        then have "key_at H j \<le> key_at H c" using c by (simp add: ok_at_def)
        then show "key_at ?S ((j - 1) div 2) \<le> key_at ?S c"
          using pj cne c kS[of i] kS[of c] less.prems(2) by simp
      qed
      have lenS: "n \<le> Len ?S"
        using less.prems(1) hp_same_Len[OF Swap_same[OF inbi jr(1)]] by simp
      have j0: "0 \<le> j" using jr(5) by simp
      have m: "nat (n - j) < nat (n - i)" using jr(2,3) by simp
      have ih: "(\<forall>c. 0 < c \<and> c < n \<and> c \<noteq> j \<longrightarrow> ok_at (state_of (down_loop ?S j n)) c) \<and>
         ((ok_at ?S j \<or> j < result (down_loop ?S j n)) \<longrightarrow> ok_at (state_of (down_loop ?S j n)) j)"
        by (rule less.hyps[OF m lenS j0 AS BS])
      have okSj: "ok_at ?S j"
        using lt pj jr(2,5) kS[of j] kS[of i] less.prems(2) by (simp add: ok_at_def)
      have all: "ok_at (state_of (down_loop ?S j n)) c" if "0 < c" "c < n" for c
        using ih okSj that by (cases "c = j") auto
      show ?thesis
      proof (cases "0 < i")
        case True
        then show ?thesis unfolding e using all jr(2,3) by auto
      next
        case False
        then have i0: "i = 0" using less.prems(2) by simp
        have "ok_at H' 0" for H' :: "'a hp" by (simp add: ok_at_def key_at_def)
        then show ?thesis unfolding e using all i0 by auto
      qed
    qed
  qed
qed


lemma down_loop_stay:
  assumes "n \<le> Len H" "0 \<le> i"
  shows "i \<le> result (down_loop H i n) \<and>
         (result (down_loop H i n) = i \<longrightarrow> state_of (down_loop H i n) = H)"
  using assms
proof (induction "nat (n - i)" arbitrary: H i rule: less_induct)
  case less
  show ?case
  proof (cases "n \<le> 2 * i + 1")
    case True
    then show ?thesis by (simp add: down_loop_leaf)
  next
    case False
    then have j1: "2 * i + 1 < n" by simp
    define j where "j = (if 2 * i + 2 < n \<and> Less H (2 * i + 2) (2 * i + 1) then 2 * i + 2 else 2 * i + 1)"
    have jr: "inb H j" "i < j" "j < n" "0 \<le> j" and inbi: "inb H i"
      using j1 less.prems by (auto simp: j_def inb_def)
    have step: "down_loop H i n = (if Less H j i then down_loop (Swap H i j) j n else Ok i H)"
      using down_loop_step[OF less.prems(2) j1 less.prems(1)] by (simp add: Let_def j_def)
    show ?thesis
    proof (cases "Less H j i")
      case False
      then show ?thesis using step by simp
    next
      case True
      have lenS: "n \<le> Len (Swap H i j)"
        using less.prems(1) hp_same_Len[OF Swap_same[OF inbi jr(1)]] by simp
      have m: "nat (n - j) < nat (n - i)" using jr(2,3) by simp
      have "j \<le> result (down_loop (Swap H i j) j n)"
        using less.hyps[OF m lenS jr(4)] by simp
      then show ?thesis using step True jr(2) by simp
    qed
  qed
qed

lemma up_root: "up H 0 = Ok () H"
  by (subst up.simps) (simp add: signed_divide_int_def)

lemma up_step:
  assumes "inb H j" "0 < j"
  shows "up H j = (if Less H j ((j - 1) div 2) then up (Swap H ((j - 1) div 2) j) ((j - 1) div 2)
                   else Ok () H)"
proof -
  have p: "(j - 1) sdiv 2 = (j - 1) div 2" using assms(2) by (simp add: signed_divide_int_def sgn_if)
  have "inb H ((j - 1) div 2)" "(j - 1) div 2 \<noteq> j" using assms by (auto simp: inb_def)
  then show ?thesis using assms(1) by (subst up.simps) (simp add: Let_def p)
qed

lemma up_order:
  assumes "inb H j"
    and "\<forall>c. 0 < c \<and> c < Len H \<and> c \<noteq> j \<longrightarrow> ok_at H c"
    and "\<forall>c. 0 < j \<and> 0 < c \<and> c < Len H \<and> (c - 1) div 2 = j \<longrightarrow>
           key_at H ((j - 1) div 2) \<le> key_at H c"
  shows "heap_ordered (state_of (up H j))"
  using assms
proof (induction "nat j" arbitrary: H j rule: less_induct)
  case less
  note A = less.prems(2) and B = less.prems(3)
  have j0: "0 \<le> j" "j < Len H" using less.prems(1) by (auto simp: inb_def)
  have okH: "key_at H ((c - 1) div 2) \<le> key_at H c" if "0 < c" "c < Len H" "c \<noteq> j" for c
    using A that unfolding ok_at_def by blast
  have gpH: "key_at H ((j - 1) div 2) \<le> key_at H c"
    if "0 < j" "0 < c" "c < Len H" "(c - 1) div 2 = j" for c
    using B that by blast
  show ?case
  proof (cases "j = 0")
    case True
    then show ?thesis using okH by (auto simp: up_root heap_ordered_def ok_at_def)
  next
    case False
    then have jp: "0 < j" using j0 by simp
    let ?i = "(j - 1) div 2"
    have ir: "inb H ?i" "?i < j" "0 \<le> ?i" using less.prems(1) jp by (auto simp: inb_def)
    note step = up_step[OF less.prems(1) jp]
    show ?thesis
    proof (cases "Less H j ?i")
      case False
      then have "key_at H ((j - 1) div 2) \<le> key_at H j" by (simp add: Less_key)
      then have "key_at H ((c - 1) div 2) \<le> key_at H c" if "0 < c" "c < Len H" for c
        using okH[of c] that by (cases "c = j") auto
      then have "heap_ordered H" unfolding heap_ordered_def ok_at_def by blast
      then show ?thesis using step False by simp
    next
      case True
      let ?S = "Swap H ?i j"
      have lt: "key_at H j < key_at H ?i" using True by (simp add: Less_key)
      have kS: "key_at ?S p = key_at H (if p = ?i then j else if p = j then ?i else p)" if "0 \<le> p" for p
        using key_at_Swap[OF ir(1) less.prems(1) that] .
      have lenS: "Len ?S = Len H" using hp_same_Len[OF Swap_same[OF ir(1) less.prems(1)]] .
      have inS: "inb ?S ?i" using ir(1) by (simp add: inb_def lenS)
      have AS: "\<forall>c. 0 < c \<and> c < Len ?S \<and> c \<noteq> ?i \<longrightarrow> ok_at ?S c"
      proof (intro allI impI)
        fix c assume c: "0 < c \<and> c < Len ?S \<and> c \<noteq> ?i"
        then have p0: "0 \<le> (c - 1) div 2" "(c - 1) div 2 < c" by auto
        show "ok_at ?S c"
        proof (cases "c = j")
          case True
          then show ?thesis using lt ir(2) jp kS[of j] kS[of ?i] by (simp add: ok_at_def)
        next
          case cj: False
          then have okc: "key_at H ((c - 1) div 2) \<le> key_at H c" using okH[of c] c lenS by simp
          show ?thesis
          proof (cases "(c - 1) div 2 = ?i")
            case True
            then have "key_at H ?i \<le> key_at H c" using okc by simp
            then show ?thesis using True lt cj c ir(3) kS[of c] kS[of ?i] by (simp add: ok_at_def)
          next
            case pi: False
            show ?thesis
            proof (cases "(c - 1) div 2 = j")
              case True
              then have "key_at H ?i \<le> key_at H c" using gpH[of c] jp c lenS by simp
              then show ?thesis using True cj c ir(2) jp kS[of c] kS[of j]
                by (simp add: ok_at_def)
            next
              case False
              then show ?thesis using okc pi cj c p0 kS[of c] kS[of "(c - 1) div 2"]
                by (simp add: ok_at_def)
            qed
          qed
        qed
      qed
      have BS: "\<forall>c. 0 < ?i \<and> 0 < c \<and> c < Len ?S \<and> (c - 1) div 2 = ?i \<longrightarrow>
                  key_at ?S ((?i - 1) div 2) \<le> key_at ?S c"
      proof (intro allI impI)
        fix c assume c: "0 < ?i \<and> 0 < c \<and> c < Len ?S \<and> (c - 1) div 2 = ?i"
        have c0: "0 < ?i" and c1: "0 < c" and c2: "c < Len H" and c3: "(c - 1) div 2 = ?i"
          using c lenS by auto
        have gi: "(?i - 1) div 2 \<noteq> ?i" "(?i - 1) div 2 \<noteq> j" "0 \<le> (?i - 1) div 2"
          using c0 ir(2) by auto
        have ci: "c \<noteq> ?i" using c1 c3 by presburger
        have oki: "key_at H ((?i - 1) div 2) \<le> key_at H ?i"
          using okH[of ?i] c0 ir(2) j0 by simp
        have k2: "key_at ?S ((?i - 1) div 2) = key_at H ((?i - 1) div 2)"
          using kS[of "(?i - 1) div 2"] gi by simp
        have k1: "key_at ?S c = key_at H (if c = j then ?i else c)"
          using kS[of c] c1 ci by simp
        show "key_at ?S ((?i - 1) div 2) \<le> key_at ?S c"
        proof (cases "c = j")
          case True
          then show ?thesis using oki k1 k2 by simp
        next
          case False
          have "key_at H ((c - 1) div 2) \<le> key_at H c" using okH[OF c1 c2 False] .
          then have "key_at H ?i \<le> key_at H c" unfolding c3 .
          then show ?thesis using oki k1 k2 False by simp
        qed
      qed
      have m: "nat ?i < nat j" using ir(2,3) by simp
      have "heap_ordered (state_of (up ?S ?i))"
        by (rule less.hyps[OF m inS AS BS])
      then show ?thesis using step True by simp
    qed
  qed
qed


lemma heap_ordered_keys:
  assumes "length (fst H') = length (fst H)"
    and "\<And>p. p < length (fst H) \<Longrightarrow>
           eexpiration (snd H' (fst H' ! p)) = eexpiration (snd H (fst H ! p))"
  shows "heap_ordered H' \<longleftrightarrow> heap_ordered H"
proof -
  have k: "key_at H' p = key_at H p" if "0 \<le> p" "p < Len H" for p
    using assms(2)[of "nat p"] that by (simp add: key_at_def Len_def)
  have "ok_at H' c = ok_at H c" if "0 < c" "c < Len H" for c
    using k[of c] k[of "(c - 1) div 2"] that by (simp add: ok_at_def)
  moreover have "Len H' = Len H" using assms(1) by (simp add: Len_def)
  ultimately show ?thesis by (auto simp: heap_ordered_def)
qed

lemma heap_ordered_empty: "heap_ordered ([], rs)"
  by (auto simp: heap_ordered_def Len_def)

lemma key_at_Push:
  assumes "0 \<le> p" "p < Len H"
  shows "key_at (Push H x) p = key_at H p"
proof -
  have "nat p < length (fst H)" using assms by (simp add: Len_def)
  then show ?thesis by (simp add: key_at_def Push_def Let_def nth_append)
qed

lemma heap_Push_ordered:
  assumes "heap_ordered H"
  shows "heap_ordered (state_of (heap_Push H x))"
proof -
  let ?P = "Push H x"
  have len: "Len ?P = Len H + 1" by (simp add: Push_def Let_def Len_def)
  have n0: "0 \<le> Len H" by (simp add: Len_def)
  have inb: "inb ?P (Len H)" using n0 by (simp add: inb_def len)
  have A: "\<forall>c. 0 < c \<and> c < Len ?P \<and> c \<noteq> Len H \<longrightarrow> ok_at ?P c"
  proof (intro allI impI)
    fix c assume c: "0 < c \<and> c < Len ?P \<and> c \<noteq> Len H"
    then have c': "0 < c" "c < Len H" using len by auto
    then have p: "0 \<le> (c - 1) div 2" "(c - 1) div 2 < Len H" by auto
    have "ok_at H c" using assms c' by (simp add: heap_ordered_def)
    then show "ok_at ?P c"
      using key_at_Push[OF p, of x] key_at_Push[of c H x] c' by (simp add: ok_at_def)
  qed
  have B: "\<forall>c. 0 < Len H \<and> 0 < c \<and> c < Len ?P \<and> (c - 1) div 2 = Len H \<longrightarrow>
             key_at ?P ((Len H - 1) div 2) \<le> key_at ?P c"
    using len by auto
  have "heap_ordered (state_of (up ?P (Len H)))" by (rule up_order[OF inb A B])
  then show ?thesis by (simp add: heap_Push_def Let_def len)
qed

lemma heap_Pop_ordered:
  assumes "heap_ordered H" "fst H \<noteq> []"
  shows "heap_ordered (state_of (heap_Pop H))"
proof -
  let ?n = "Len H - 1"
  let ?S = "Swap H 0 ?n"
  let ?D = "down_loop ?S 0 ?n"
  have n0: "0 \<le> ?n" using assms(2) by (cases "fst H") (simp_all add: Len_def)
  have i0: "inb H 0" and i1: "inb H ?n" using n0 by (simp_all add: inb_def)
  have lenS: "Len ?S = Len H" using hp_same_Len[OF Swap_same[OF i0 i1]] .
  have kS: "key_at ?S p = key_at H (if p = 0 then ?n else if p = ?n then 0 else p)" if "0 \<le> p" for p
    using key_at_Swap[OF i0 i1 that] .
  have A: "\<forall>c. 0 < c \<and> c < ?n \<and> c \<noteq> 0 \<and> (c - 1) div 2 \<noteq> 0 \<longrightarrow> ok_at ?S c"
  proof (intro allI impI)
    fix c assume c: "0 < c \<and> c < ?n \<and> c \<noteq> 0 \<and> (c - 1) div 2 \<noteq> 0"
    then have c1: "0 < c" and c2: "c < ?n" and c3: "(c - 1) div 2 \<noteq> 0" by auto
    have p: "0 \<le> (c - 1) div 2" "(c - 1) div 2 \<noteq> ?n" using c1 c2 by auto
    have k1: "key_at ?S c = key_at H c" using kS[of c] c1 c2 by simp
    have k2: "key_at ?S ((c - 1) div 2) = key_at H ((c - 1) div 2)"
      using kS[OF p(1)] p(2) c3 by simp
    have "ok_at H c" using assms(1) c1 c2 by (simp add: heap_ordered_def)
    then show "ok_at ?S c" by (simp add: ok_at_def k1 k2)
  qed
  have B: "\<forall>c. 0 < (0::int) \<and> 0 < c \<and> c < ?n \<and> (c - 1) div 2 = 0 \<longrightarrow>
             key_at ?S ((0 - 1) div 2) \<le> key_at ?S c"
    by simp
  have le: "?n \<le> Len ?S" by (simp add: lenS)
  have ord: "\<forall>c. 0 < c \<and> c < ?n \<and> c \<noteq> 0 \<longrightarrow> ok_at (state_of ?D) c"
    using down_loop_order[OF le _ A B] by simp
  have sameD: "hp_same ?S (state_of ?D)" by (rule down_loop_same)
  have lenD: "Len (state_of ?D) = Len H" using hp_same_Len[OF sameD] lenS by simp
  have okD: "is_Ok ?D" by (rule down_loop_ok[OF le])
  then obtain r H1 where D: "?D = Ok r H1" by (cases ?D) simp_all
  let ?H1 = "state_of ?D"
  have pop: "heap_Pop H = Pop ?H1"
    using i0 i1 by (simp add: heap_Pop_def Let_def down_def D)
  have inb1: "inb ?H1 (Len ?H1 - 1)" using i1 by (simp add: inb_def lenD)
  let ?H2 = "state_of (Pop ?H1)"
  have fst2: "fst ?H2 = take (nat ?n) (fst ?H1)"
    and snd2: "\<And>r. eexpiration (snd ?H2 r) = eexpiration (snd ?H1 r)"
    using inb1 by (simp_all add: Pop_def Let_def lenD)
  have "length (fst ?H1) = nat (Len H)" using lenD by (simp add: Len_def)
  then have "length (fst ?H2) = nat ?n" unfolding fst2 by simp
  then have len2: "Len ?H2 = ?n" using n0 by (simp add: Len_def)
  have k2: "key_at ?H2 p = key_at ?H1 p" if "0 \<le> p" "p < ?n" for p
    using that by (simp add: key_at_def fst2 snd2)
  have "ok_at ?H2 c" if "0 < c" "c < ?n" for c
  proof -
    have p: "0 \<le> (c - 1) div 2" "(c - 1) div 2 < ?n" using that by auto
    have "ok_at ?H1 c" using ord that by simp
    then show ?thesis using k2[OF p] k2[of c] that by (simp add: ok_at_def)
  qed
  then show ?thesis unfolding pop by (simp add: heap_ordered_def len2)
qed

lemma heap_Fix_ordered_at:
  assumes i: "inb H i"
    and A: "\<forall>c. 0 < c \<and> c < Len H \<and> c \<noteq> i \<and> (c - 1) div 2 \<noteq> i \<longrightarrow> ok_at H c"
    and B: "\<forall>c. 0 < i \<and> 0 < c \<and> c < Len H \<and> (c - 1) div 2 = i \<longrightarrow>
              key_at H ((i - 1) div 2) \<le> key_at H c"
  shows "heap_ordered (state_of (heap_Fix H i))"
proof -
  let ?D = "down_loop H i (Len H)"
  have i0: "0 \<le> i" using i by (simp add: inb_def)
  have okD: "is_Ok ?D" by (rule down_loop_ok[OF order_refl])
  then obtain r H1 where D: "?D = Ok r H1" by (cases ?D) simp_all
  have ord1: "ok_at H1 c" if "0 < c" "c < Len H" "c \<noteq> i" for c
    using down_loop_order[OF order_refl i0 A B] that unfolding D by simp
  have ord2: "ok_at H1 i" if "i < r"
    using down_loop_order[OF order_refl i0 A B] that unfolding D by simp
  have stay: "i \<le> r" "r = i \<longrightarrow> H1 = H"
    using down_loop_stay[OF order_refl i0, of H] unfolding D by simp_all
  have lenD: "Len H1 = Len H" using hp_same_Len[OF down_loop_same, of H i "Len H"] unfolding D by simp
  show ?thesis
  proof (cases "i < r")
    case True
    have f: "heap_Fix H i = Ok () H1" using True by (simp add: heap_Fix_def down_def D)
    have "ok_at H1 c" if "0 < c" "c < Len H" for c
      using ord1[OF that] ord2[OF True] by (cases "c = i") simp_all
    then show ?thesis unfolding f by (simp add: heap_ordered_def lenD)
  next
    case False
    then have r: "r = i" using stay(1) by simp
    then have s: "H1 = H" using stay(2) by simp
    have f: "heap_Fix H i = up H i" by (simp add: heap_Fix_def down_def D r s)
    have A': "\<forall>c. 0 < c \<and> c < Len H \<and> c \<noteq> i \<longrightarrow> ok_at H c" using ord1 s by simp
    show ?thesis unfolding f by (rule up_order[OF i A' B])
  qed
qed

section \<open>The sweeper (expirationProcessor)\<close>

text \<open>
  The goroutine holds the lock in two places, each modelled as one step: \<open>waitStep\<close>
  (lines 162-184) computes the next wait and drops a canceled root, and \<open>sweep\<close>
  (lines 213-237) removes what is due. \<open>sweepBody\<close> is one iteration of the loop of
  \<open>sweep\<close>; its result says whether the loop goes on.
\<close>

definition popRoot :: "('k, 'v) Cache \<Rightarrow> (addr, ('k, 'v) Cache) outcome" where
  "popRoot c = with_hp (heap_Pop (hp_of c)) c"

definition Hour :: duration where
  "Hour = 3600000000000"

definition waitStep :: "time \<Rightarrow> ('k, 'v) Cache \<Rightarrow> (duration option, ('k, 'v) Cache) outcome" where
  "waitStep now c =
     (if Len (hp_of c) = 0 then Ok (Some Hour) c
      else let next = expHeap c ! 0
           in if canceled (recs c next)
              then (case popRoot c of
                      Panic e c' \<Rightarrow> Panic e c'
                    | Ok _ c' \<Rightarrow> Ok None c')
              else if Before now (eexpiration (recs c next))
              then Ok (Some (int (eexpiration (recs c next)) - int now)) c
              else Ok (Some 0) c)"

definition sweepBody :: "time \<Rightarrow> ('k, 'v) Cache \<Rightarrow> (bool, ('k, 'v) Cache) outcome" where
  "sweepBody now c =
     (let next = expHeap c ! 0
      in if canceled (recs c next)
         then (case popRoot c of
                 Panic e c' \<Rightarrow> Panic e c'
               | Ok _ c' \<Rightarrow> Ok True c')
         else if Before now (eexpiration (recs c next)) then Ok False c
         else (case popRoot c of
                 Panic e c' \<Rightarrow> Panic e c'
               | Ok _ c1 \<Rightarrow>
                   (case cache c1 (ekey (recs c1 next)) of
                      Some ele \<Rightarrow>
                        let ent = elems c1 ele
                        in if \<not> IsZero (expiration ent) \<and> \<not> Before now (expiration ent)
                           then Ok True (c1\<lparr>ll := Remove ele (ll c1),
                                            cache := (cache c1)(ekey (recs c1 next) := None)\<rparr>)
                           else Ok True c1
                    | None \<Rightarrow> Ok True c1)))"

lemma set_hp_simps [simp]:
  "expHeap (set_hp H c) = fst H" "recs (set_hp H c) = snd H"
  "ll (set_hp H c) = ll c" "cache (set_hp H c) = cache c" "elems (set_hp H c) = elems c"
  "capacity (set_hp H c) = capacity c" "nextElem (set_hp H c) = nextElem c"
  "nextRec (set_hp H c) = nextRec c"
  by (simp_all add: set_hp_def)

lemma hp_of_simps [simp]: "fst (hp_of c) = expHeap c" "snd (hp_of c) = recs c"
  by (simp_all add: hp_of_def)

lemma popRoot_facts:
  assumes "expHeap c \<noteq> []"
  shows "\<exists>H'. popRoot c = Ok (expHeap c ! 0) (set_hp H' c) \<and>
           length (fst H') = length (expHeap c) - 1 \<and>
           mset (fst H') = mset (expHeap c) - {#expHeap c ! 0#} \<and>
           (\<forall>r. unindexed (snd H' r) = unindexed (recs c r)) \<and>
           (\<forall>r. r \<notin> set (expHeap c) \<longrightarrow> snd H' r = recs c r) \<and>
           index (snd H' (expHeap c ! 0)) = - 1 \<and>
           (hp_wf (hp_of c) \<longrightarrow> hp_wf H' \<and> expHeap c ! 0 \<notin> set (fst H'))"
proof -
  obtain H' where h: "heap_Pop (hp_of c) = Ok (expHeap c ! 0) H'"
    "length (fst H') = length (expHeap c) - 1"
    "mset (fst H') = mset (expHeap c) - {#expHeap c ! 0#}"
    "\<forall>r. unindexed (snd H' r) = unindexed (recs c r)"
    "\<forall>r. r \<notin> set (expHeap c) \<longrightarrow> snd H' r = recs c r"
    "index (snd H' (expHeap c ! 0)) = - 1"
    "hp_wf (hp_of c) \<longrightarrow> hp_wf H' \<and> expHeap c ! 0 \<notin> set (fst H')"
    using heap_Pop_facts[of "hp_of c"] assms by auto
  have "popRoot c = Ok (expHeap c ! 0) (set_hp H' c)"
    using h(1) by (simp add: popRoot_def with_hp_def)
  then show ?thesis using h(2-7) by blast
qed

lemma sweepBody_shrinks:
  assumes "expHeap c \<noteq> []" "sweepBody now c = Ok True c'"
  shows "length (expHeap c') < length (expHeap c)"
proof -
  obtain H' where p: "popRoot c = Ok (expHeap c ! 0) (set_hp H' c)"
    and l: "length (fst H') = length (expHeap c) - 1"
    using popRoot_facts[OF assms(1)] by blast
  have "length (expHeap c') = length (fst H')"
    using assms(2) p
    by (auto simp: sweepBody_def Let_def split: if_splits option.splits)
  then show ?thesis using l assms(1) by simp
qed

function sweep :: "time \<Rightarrow> ('k, 'v) Cache \<Rightarrow> (unit, ('k, 'v) Cache) outcome" where
  "sweep now c =
     (if Len (hp_of c) > 0
      then case sweepBody now c of
             Panic e c' \<Rightarrow> Panic e c'
           | Ok again c' \<Rightarrow> if again then sweep now c' else Ok () c'
      else Ok () c)"
  by pat_completeness auto
termination
proof (relation "measure (\<lambda>(now, c). length (expHeap c))", goal_cases)
  case 1
  show ?case by simp
next
  case (2 now c again c')
  then have "expHeap c \<noteq> []" "sweepBody now c = Ok True c'"
    by (auto simp: Len_def)
  then show ?case
    using sweepBody_shrinks[of c now c'] by simp
qed

declare sweep.simps [simp del]

section \<open>Invariants of the cache state\<close>

definition lru_ok :: "addr list \<Rightarrow> ('k \<rightharpoonup> addr) \<Rightarrow> (addr \<Rightarrow> 'k) \<Rightarrow> addr \<Rightarrow> bool" where
  "lru_ok l m kf n \<longleftrightarrow>
     distinct l \<and> (\<forall>k e. m k = Some e \<longleftrightarrow> e \<in> set l \<and> kf e = k) \<and> (\<forall>e\<in>set l. e < n)"

definition lru_inv :: "('k, 'v) Cache \<Rightarrow> bool" where
  "lru_inv c \<longleftrightarrow> lru_ok (ll c) (cache c) (\<lambda>e. key (elems c e)) (nextElem c)"

lemma mset_MoveToFront [simp]: "mset (MoveToFront e l) = mset l"
  by (simp add: MoveToFront_def)

lemma set_MoveToFront [simp]: "set (MoveToFront e l) = set l"
  using mset_MoveToFront[of e l] by (rule mset_eq_setD)

lemma distinct_MoveToFront [simp]: "distinct (MoveToFront e l) = distinct l"
  using mset_MoveToFront[of e l] by (rule mset_eq_imp_distinct_iff)

lemma length_MoveToFront [simp]: "length (MoveToFront e l) = length l"
  using mset_MoveToFront[of e l] by (rule mset_eq_length)

lemma MoveToFront_eq: "e \<in> set l \<Longrightarrow> MoveToFront e l = e # remove1 e l"
  by (cases l) (auto simp: MoveToFront_def)

lemma lru_ok_unlink:
  assumes "lru_ok l m kf n" "ele \<in> set l"
  shows "lru_ok (Remove ele l) (m(kf ele := None)) kf n"
proof -
  have d: "distinct l" and m: "\<And>k e. m k = Some e \<longleftrightarrow> e \<in> set l \<and> kf e = k"
    and b: "\<forall>e\<in>set l. e < n"
    using assms(1) by (auto simp: lru_ok_def)
  have uniq: "e = ele" if "e \<in> set l" "kf e = kf ele" for e
  proof -
    have "m (kf ele) = Some e" "m (kf ele) = Some ele" using m that assms(2) by auto
    then show ?thesis by simp
  qed
  show ?thesis
    unfolding lru_ok_def Remove_def
    using d m b uniq by (auto simp: set_remove1_eq)
qed

lemma lru_ok_MoveToFront: "lru_ok l m kf n \<Longrightarrow> lru_ok (MoveToFront e l) m kf n"
  by (simp add: lru_ok_def)

lemma lru_inv_cacheD: "lru_inv c \<Longrightarrow> cache c k = Some e \<Longrightarrow> e \<in> set (ll c) \<and> key (elems c e) = k"
  by (simp add: lru_inv_def lru_ok_def)

lemma lru_inv_Get: "lru_inv c \<Longrightarrow> lru_inv (snd (Get k now c))"
proof -
  assume a: "lru_inv c"
  show ?thesis
  proof (cases "cache c k")
    case None
    then show ?thesis using a by (simp add: Get_def)
  next
    case (Some ele)
    then have e: "ele \<in> set (ll c)" "key (elems c ele) = k" using a lru_inv_cacheD by metis+
    show ?thesis using Some a lru_ok_unlink[OF a[unfolded lru_inv_def] e(1)] e(2)
      by (simp add: Get_def Let_def lru_inv_def lru_ok_MoveToFront)
  qed
qed

lemma lru_inv_removeOldestLocked: "lru_inv c \<Longrightarrow> lru_inv (removeOldestLocked c)"
proof -
  assume a: "lru_inv c"
  show ?thesis
  proof (cases "ll c")
    case Nil
    then show ?thesis using a by (simp add: removeOldestLocked_def Back_def)
  next
    case (Cons x xs)
    then have l: "last (ll c) \<in> set (ll c)" "Back (ll c) = Some (last (ll c))"
      by (auto simp: Back_def)
    show ?thesis
      using lru_ok_unlink[OF a[unfolded lru_inv_def] l(1)] l(2)
      by (simp add: removeOldestLocked_def Let_def lru_inv_def split: option.splits)
  qed
qed

lemma lru_inv_Delete: "lru_inv c \<Longrightarrow> lru_inv (Delete k c)"
proof -
  assume a: "lru_inv c"
  show ?thesis
  proof (cases "cache c k")
    case None
    then show ?thesis using a by (simp add: Delete_def)
  next
    case (Some ele)
    then have e: "ele \<in> set (ll c)" "key (elems c ele) = k" using a lru_inv_cacheD by metis+
    show ?thesis using Some lru_ok_unlink[OF a[unfolded lru_inv_def] e(1)] e(2)
      by (simp add: Delete_def Let_def lru_inv_def split: option.splits)
  qed
qed

definition heap_ok ::
  "addr list \<Rightarrow> (addr \<Rightarrow> 'k expEntry) \<Rightarrow> addr \<Rightarrow> addr list \<Rightarrow> (addr \<Rightarrow> addr option) \<Rightarrow> bool" where
  "heap_ok h rs n l ef \<longleftrightarrow>
     hp_wf (h, rs) \<and> (\<forall>r\<in>set h. r < n) \<and>
     (\<forall>e\<in>set l. \<forall>r. ef e = Some r \<longrightarrow> r \<in> set h \<or> index (rs r) = - 1)"

definition heap_inv :: "('k, 'v) Cache \<Rightarrow> bool" where
  "heap_inv c \<longleftrightarrow>
     heap_ok (expHeap c) (recs c) (nextRec c) (ll c) (\<lambda>e. exp (elems c e))"

lemma heap_ok_sub: "heap_ok h rs n l ef \<Longrightarrow> set l' \<subseteq> set l \<Longrightarrow> heap_ok h rs n l' ef"
  by (auto simp: heap_ok_def)

lemma heap_ok_index_cong:
  "(\<And>r. index (rs' r) = index (rs r)) \<Longrightarrow> heap_ok h rs' n l ef = heap_ok h rs n l ef"
  by (simp add: heap_ok_def hp_wf_def)

lemma heap_ok_same:
  assumes "heap_ok (fst H) (snd H) n l ef" "hp_same H H'" "hp_wf H'"
  shows "heap_ok (fst H') (snd H') n l ef"
proof -
  have s: "set (fst H') = set (fst H)" using assms(2) by (rule hp_same_set)
  have f: "\<And>r. r \<notin> set (fst H) \<Longrightarrow> snd H' r = snd H r"
    using assms(2) by (simp add: hp_same_def)
  have g: "r \<in> set (fst H') \<or> index (snd H' r) = - 1" if "e \<in> set l" "ef e = Some r" for e r
  proof (cases "r \<in> set (fst H)")
    case True
    then show ?thesis using s by simp
  next
    case False
    then have "index (snd H r) = - 1" using assms(1) that by (auto simp: heap_ok_def)
    then show ?thesis using f[OF False] by simp
  qed
  have a: "hp_wf (fst H', snd H')" using assms(3) by simp
  have b: "\<forall>r\<in>set (fst H'). r < n" using assms(1) s by (simp add: heap_ok_def)
  have c: "\<forall>e\<in>set l. \<forall>r. ef e = Some r \<longrightarrow> r \<in> set (fst H') \<or> index (snd H' r) = - 1"
    using g by blast
  show ?thesis
    unfolding heap_ok_def using a b c by (intro conjI)
qed

lemma heap_ok_Fix:
  assumes "heap_ok h rs n l ef"
  shows "heap_ok (fst (state_of (heap_Fix (h, rs) i))) (snd (state_of (heap_Fix (h, rs) i))) n l ef"
proof (rule heap_ok_same)
  show "heap_ok (fst (h, rs)) (snd (h, rs)) n l ef" using assms by simp
  show "hp_same (h, rs) (state_of (heap_Fix (h, rs) i))" by (rule heap_Fix_same)
  show "hp_wf (state_of (heap_Fix (h, rs) i))"
    using assms by (intro heap_Fix_wf) (simp add: heap_ok_def)
qed

lemma heap_ok_Fix_ok:
  assumes "heap_ok h rs n l ef" "e \<in> set l" "ef e = Some r"
  shows "is_Ok (heap_Fix (h, rs') (index (rs r)))"
proof (rule heap_Fix_ok)
  have g: "\<forall>e\<in>set l. \<forall>r. ef e = Some r \<longrightarrow> r \<in> set h \<or> index (rs r) = - 1"
    and ix: "\<forall>i<length h. index (rs (h ! i)) = int i"
    using assms(1) unfolding heap_ok_def hp_wf_def fst_conv snd_conv by blast+
  have d: "r \<in> set h \<or> index (rs r) = - 1" using g assms(2,3) by blast
  have "inb (h, rs') (index (rs r))" if rh: "r \<in> set h"
  proof -
    obtain i where i: "i < length h" "h ! i = r" using rh unfolding in_set_conv_nth by blast
    then have "index (rs r) = int i" using ix by blast
    then show ?thesis using i(1) by (simp add: inb_def Len_def)
  qed
  then show "inb (h, rs') (index (rs r)) \<or> index (rs r) = - 1" using d by blast
qed

lemma heap_Push_frame:
  assumes "r \<notin> set (fst H)" "r \<noteq> x"
  shows "snd (state_of (heap_Push H x)) r = snd H r"
proof -
  have "hp_same (Push H x) (state_of (heap_Push H x))"
    by (simp add: heap_Push_def Let_def up_same)
  moreover have "r \<notin> set (fst (Push H x))" using assms by (simp add: Push_def Let_def)
  ultimately have "snd (state_of (heap_Push H x)) r = snd (Push H x) r"
    by (simp add: hp_same_def)
  then show ?thesis using assms(2) by (simp add: Push_def Let_def)
qed

lemma heap_ok_Push:
  assumes "heap_ok h rs n l ef" "index (rs' n) = 0" "\<And>r. r \<noteq> n \<Longrightarrow> rs' r = rs r"
    and H': "H' = state_of (heap_Push (h, rs') n)"
  shows "heap_ok (fst H') (snd H') (Suc n) l (ef(ele := Some n))"
proof -
  have nin: "n \<notin> set h" using assms(1) by (auto simp: heap_ok_def)
  have "rs' (h ! i) = rs (h ! i)" if "i < length h" for i
  proof -
    have "h ! i \<in> set h" using that by simp
    then have "h ! i \<noteq> n" using nin by metis
    then show ?thesis by (rule assms(3))
  qed
  then have wf0: "hp_wf (h, rs')"
    using assms(1) by (simp add: heap_ok_def hp_wf_def)
  have wf: "hp_wf H'" unfolding H' using nin wf0 by (intro heap_Push_wf) simp_all
  have "mset (fst H') = add_mset n (mset h)" unfolding H' by (simp add: heap_Push_mset)
  then have "set_mset (mset (fst H')) = set_mset (add_mset n (mset h))" by simp
  then have st: "set (fst H') = insert n (set h)" by simp
  have fr: "snd H' r = rs r" if "r \<notin> set h" "r \<noteq> n" for r
    unfolding H' using heap_Push_frame[of r "(h, rs')" n] that assms(3) by simp
  show ?thesis
    unfolding heap_ok_def
  proof (intro conjI ballI allI impI)
    show "hp_wf (fst H', snd H')" using wf by simp
    show "r < Suc n" if "r \<in> set (fst H')" for r
      using that st assms(1) by (auto simp: heap_ok_def)
    show "r \<in> set (fst H') \<or> index (snd H' r) = - 1"
      if "e \<in> set l" "(ef(ele := Some n)) e = Some r" for e r
    proof (cases "r = n \<or> r \<in> set h")
      case True
      then show ?thesis using st by auto
    next
      case False
      then have "e \<noteq> ele" "ef e = Some r" using that(2) by (auto split: if_splits)
      then have "index (rs r) = - 1" using assms(1) that(1) False by (auto simp: heap_ok_def)
      then show ?thesis using fr False by simp
    qed
  qed
qed

definition cache_inv :: "('k, 'v) Cache \<Rightarrow> bool" where
  "cache_inv c \<longleftrightarrow> lru_inv c \<and> heap_inv c \<and> int (length (ll c)) \<le> capacity c"

lemma with_hp_simps [simp]:
  "state_of (with_hp out c) = set_hp (state_of out) c"
  "is_Ok (with_hp out c) = is_Ok out"
  by (cases out; simp add: with_hp_def)+

lemma newExp_facts:
  "is_Ok (newExp k t ele c)"
  "ll (state_of (newExp k t ele c)) = ll c"
  "cache (state_of (newExp k t ele c)) = cache c"
  "capacity (state_of (newExp k t ele c)) = capacity c"
  "nextElem (state_of (newExp k t ele c)) = nextElem c"
  "nextRec (state_of (newExp k t ele c)) = Suc (nextRec c)"
  "elems (state_of (newExp k t ele c)) = (elems c)(ele := (elems c ele)\<lparr>exp := Some (nextRec c)\<rparr>)"
  by (simp_all add: newExp_def Let_def heap_Push_ok)

lemma newExp_heap_ok:
  assumes "heap_ok (expHeap c) (recs c) (nextRec c) l ef"
  shows "heap_ok (expHeap (state_of (newExp k t ele c))) (recs (state_of (newExp k t ele c)))
           (Suc (nextRec c)) l (ef(ele := Some (nextRec c)))"
proof -
  let ?n = "nextRec c"
  let ?rs = "(recs c)(?n := \<lparr>ekey = k, eexpiration = t, index = 0, canceled = False\<rparr>)"
  let ?H = "state_of (heap_Push (expHeap c, ?rs) ?n)"
  have "heap_ok (fst ?H) (snd ?H) (Suc ?n) l (ef(ele := Some ?n))"
    by (rule heap_ok_Push[OF assms]) simp_all
  then show ?thesis by (simp add: newExp_def Let_def hp_of_def)
qed

lemma SetWithTTL_update_frame:
  assumes "cache c k = Some ele"
  shows "ll (state_of (SetWithTTL k v ttl now c)) = MoveToFront ele (ll c)"
    "cache (state_of (SetWithTTL k v ttl now c)) = cache c"
    "capacity (state_of (SetWithTTL k v ttl now c)) = capacity c"
    "nextElem (state_of (SetWithTTL k v ttl now c)) = nextElem c"
    "key (elems (state_of (SetWithTTL k v ttl now c)) e) = key (elems c e)"
  using assms
  by (simp_all add: SetWithTTL_def Let_def newExp_facts split: option.splits)

lemma SetWithTTL_update_lru:
  assumes "lru_inv c" "cache c k = Some ele"
  shows "lru_inv (state_of (SetWithTTL k v ttl now c))"
  using assms(1) unfolding lru_inv_def SetWithTTL_update_frame[OF assms(2)]
  by (rule lru_ok_MoveToFront)

lemma heap_ok_mono:
  assumes "heap_ok h rs n l ef"
    "\<And>e r. e \<in> set l' \<Longrightarrow> ef' e = Some r \<Longrightarrow> e \<in> set l \<and> ef e = Some r"
  shows "heap_ok h rs n l' ef'"
proof -
  have g: "\<forall>e\<in>set l. \<forall>r. ef e = Some r \<longrightarrow> r \<in> set h \<or> index (rs r) = - 1"
    using assms(1) unfolding heap_ok_def by blast
  have "\<forall>e\<in>set l'. \<forall>r. ef' e = Some r \<longrightarrow> r \<in> set h \<or> index (rs r) = - 1"
    using g assms(2) by blast
  then show ?thesis using assms(1) unfolding heap_ok_def by blast
qed

lemma SetWithTTL_update_heap:
  assumes h: "heap_inv c" and l: "lru_inv c" and k: "cache c k = Some ele"
  shows "is_Ok (SetWithTTL k v ttl now c) \<and> heap_inv (state_of (SetWithTTL k v ttl now c))"
proof -
  let ?ef = "\<lambda>e. exp (elems c e)"
  let ?t = "Add now ttl"
  have el: "ele \<in> set (ll c)" using l k lru_inv_cacheD by metis
  have ok: "heap_ok (expHeap c) (recs c) (nextRec c) (ll c) ?ef"
    using h by (simp add: heap_inv_def)
  consider (upd) r where "0 < ttl" "exp (elems c ele) = Some r"
    | (fresh) "0 < ttl" "exp (elems c ele) = None"
    | (cancel) r where "\<not> 0 < ttl" "exp (elems c ele) = Some r"
    | (none) "\<not> 0 < ttl" "exp (elems c ele) = None"
    by (cases "exp (elems c ele)") auto
  then show ?thesis
  proof cases
    case (upd r)
    let ?rs = "(recs c)(r := (recs c r)\<lparr>eexpiration := ?t\<rparr>)"
    let ?F = "heap_Fix (expHeap c, ?rs) (index (recs c r))"
    have ok1: "heap_ok (expHeap c) ?rs (nextRec c) (ll c) ?ef"
      using ok by (subst heap_ok_index_cong[where rs = "recs c"]) simp_all
    have ok2: "heap_ok (fst (state_of ?F)) (snd (state_of ?F)) (nextRec c) (ll c) ?ef"
      using ok1 by (rule heap_ok_Fix)
    have ok3: "heap_ok (fst (state_of ?F)) (snd (state_of ?F)) (nextRec c) (MoveToFront ele (ll c))
        (\<lambda>e. exp (((elems c)(ele := (elems c ele)\<lparr>val := v, expiration := ?t\<rparr>)) e))"
      using ok2 by (rule heap_ok_mono) (auto split: if_splits)
    have isok: "is_Ok ?F" using ok el upd(2) by (rule heap_ok_Fix_ok)
    show ?thesis
      using k upd ok3 isok
      by (simp add: SetWithTTL_def Let_def heap_inv_def hp_of_def)
  next
    case fresh
    let ?c1 = "c\<lparr>elems := (elems c)(ele := (elems c ele)\<lparr>val := v, expiration := ?t\<rparr>),
                  ll := MoveToFront ele (ll c)\<rparr>"
    let ?ef1 = "\<lambda>e. exp (elems ?c1 e)"
    have "heap_ok (expHeap c) (recs c) (nextRec c) (MoveToFront ele (ll c)) ?ef1"
      using ok by (rule heap_ok_mono) (auto split: if_splits)
    then have "heap_ok (expHeap ?c1) (recs ?c1) (nextRec ?c1) (ll ?c1) ?ef1"
      by simp
    then have "heap_ok (expHeap (state_of (newExp k ?t ele ?c1))) (recs (state_of (newExp k ?t ele ?c1)))
           (Suc (nextRec ?c1)) (ll ?c1) (?ef1(ele := Some (nextRec ?c1)))"
      by (rule newExp_heap_ok)
    then have "heap_inv (state_of (newExp k ?t ele ?c1))"
      unfolding heap_inv_def newExp_facts by (rule heap_ok_mono) (auto split: if_splits)
    then show ?thesis
      using k fresh by (simp add: SetWithTTL_def Let_def newExp_facts)
  next
    case (cancel r)
    let ?rs = "(recs c)(r := (recs c r)\<lparr>canceled := True\<rparr>)"
    have ok1: "heap_ok (expHeap c) ?rs (nextRec c) (ll c) ?ef"
      using ok by (subst heap_ok_index_cong[where rs = "recs c"]) simp_all
    have "heap_ok (expHeap c) ?rs (nextRec c) (MoveToFront ele (ll c))
        (\<lambda>e. exp (((elems c)(ele := (elems c ele)\<lparr>val := v, expiration := 0, exp := None\<rparr>)) e))"
      using ok1 by (rule heap_ok_mono) (auto split: if_splits)
    then show ?thesis
      using k cancel by (simp add: SetWithTTL_def Let_def heap_inv_def)
  next
    case none
    have "heap_ok (expHeap c) (recs c) (nextRec c) (MoveToFront ele (ll c))
        (\<lambda>e. exp (((elems c)(ele := (elems c ele)\<lparr>val := v, expiration := 0\<rparr>)) e))"
      using ok by (rule heap_ok_mono) (auto split: if_splits)
    then show ?thesis
      using k none by (simp add: SetWithTTL_def Let_def heap_inv_def)
  qed
qed

lemma lru_ok_cong: "(\<And>e. kf' e = kf e) \<Longrightarrow> lru_ok l m kf' n = lru_ok l m kf n"
  by (simp add: lru_ok_def)

lemma lru_ok_insert:
  assumes "lru_ok l m kf n" "m k = None"
  shows "lru_ok (PushFront n l) (m(k \<mapsto> n)) (kf(n := k)) (Suc n)"
proof -
  have d: "distinct l" and m: "\<And>k e. m k = Some e \<longleftrightarrow> e \<in> set l \<and> kf e = k"
    and b: "\<forall>e\<in>set l. e < n"
    using assms(1) by (auto simp: lru_ok_def)
  have nin: "n \<notin> set l" using b by auto
  have nk: "kf e \<noteq> k" if "e \<in> set l" for e
    using m[of k e] assms(2) that by auto
  show ?thesis
    unfolding lru_ok_def PushFront_def
    using d m b nin nk by (auto simp: less_Suc_eq)
qed

lemma newExp_lru_inv: "lru_inv c \<Longrightarrow> lru_inv (state_of (newExp k t ele c))"
  unfolding lru_inv_def newExp_facts
  by (subst lru_ok_cong[where kf = "\<lambda>e. key (elems c e)"]) simp_all

lemma newExp_heap_inv:
  assumes "heap_inv c"
  shows "heap_inv (state_of (newExp k t ele c))"
proof -
  let ?ef = "\<lambda>e. exp (elems c e)"
  have "heap_ok (expHeap (state_of (newExp k t ele c))) (recs (state_of (newExp k t ele c)))
           (Suc (nextRec c)) (ll c) (?ef(ele := Some (nextRec c)))"
    using assms unfolding heap_inv_def by (rule newExp_heap_ok)
  then show ?thesis
    unfolding heap_inv_def newExp_facts by (rule heap_ok_mono) (auto split: if_splits)
qed

lemma remove1_last: "distinct l \<Longrightarrow> l \<noteq> [] \<Longrightarrow> remove1 (last l) l = butlast l"
  by (induction l) (auto simp: remove1_idem)

lemma Back_nonempty: "l \<noteq> [] \<Longrightarrow> Back l = Some (last l)"
  by (cases l) (simp_all add: Back_def)

lemma removeOldestLocked_ll:
  assumes "distinct (ll c)"
  shows "ll (removeOldestLocked c) = butlast (ll c)"
proof (cases "ll c = []")
  case True
  then show ?thesis by (simp add: removeOldestLocked_def Back_def)
next
  case False
  then show ?thesis
    using assms
    by (simp add: removeOldestLocked_def Back_nonempty Remove_def Let_def remove1_last
        split: option.splits)
qed

lemma removeOldestLocked_frame [simp]:
  "capacity (removeOldestLocked c) = capacity c"
  "elems (removeOldestLocked c) = elems c"
  "nextElem (removeOldestLocked c) = nextElem c"
  "nextRec (removeOldestLocked c) = nextRec c"
  "expHeap (removeOldestLocked c) = expHeap c"
  by (simp_all add: removeOldestLocked_def Let_def split: option.splits)

lemma removeOldestLocked_heap_inv:
  assumes "heap_inv c"
  shows "heap_inv (removeOldestLocked c)"
proof (cases "Back (ll c)")
  case None
  then show ?thesis using assms by (simp add: removeOldestLocked_def)
next
  case (Some ele)
  let ?ef = "\<lambda>e. exp (elems c e)"
  have ok: "heap_ok (expHeap c) (recs c) (nextRec c) (ll c) ?ef"
    using assms by (simp add: heap_inv_def)
  have ok1: "heap_ok (expHeap c) ((recs c)(r := (recs c r)\<lparr>canceled := True\<rparr>)) (nextRec c) (ll c) ?ef" for r
    using ok by (subst heap_ok_index_cong[where rs = "recs c"]) simp_all
  have sub: "\<And>e r. e \<in> set (Remove ele (ll c)) \<Longrightarrow> ?ef e = Some r \<Longrightarrow> e \<in> set (ll c) \<and> ?ef e = Some r"
    using notin_set_remove1 unfolding Remove_def by fastforce
  show ?thesis
    using Some heap_ok_mono[OF ok sub] heap_ok_mono[OF ok1 sub]
    by (simp add: removeOldestLocked_def Let_def heap_inv_def split: option.splits)
qed

lemma is_Ok_unit: "is_Ok (out :: (unit, 's) outcome) \<Longrightarrow> out = Ok () (state_of out)"
  by (cases out) simp_all

lemma case_outcome_ok:
  "is_Ok out \<Longrightarrow> (case out of Ok x s \<Rightarrow> f s | Panic e s \<Rightarrow> Panic e s) = f (state_of out)"
  by (cases out) simp_all

lemma SetWithTTL_insert:
  assumes i: "cache_inv c" and k: "cache c k = None"
  shows "is_Ok (SetWithTTL k v ttl now c) \<and> cache_inv (state_of (SetWithTTL k v ttl now c))"
proof -
  let ?t = "if 0 < ttl then Add now ttl else 0"
  let ?ele = "nextElem c"
  let ?c1 = "c\<lparr>elems := (elems c)(?ele := \<lparr>key = k, val = v, expiration = ?t, exp = None\<rparr>),
               nextElem := Suc ?ele, ll := PushFront ?ele (ll c), cache := (cache c)(k \<mapsto> ?ele)\<rparr>"
  let ?out = "if 0 < ttl then newExp k ?t ?ele ?c1 else Ok () ?c1"
  let ?c2 = "state_of ?out"
  have l: "lru_inv c" and h: "heap_inv c" and cap: "int (length (ll c)) \<le> capacity c"
    using i by (simp_all add: cache_inv_def)
  have "lru_ok (PushFront ?ele (ll c)) ((cache c)(k \<mapsto> ?ele)) ((\<lambda>e. key (elems c e))(?ele := k)) (Suc ?ele)"
    using l k unfolding lru_inv_def by (rule lru_ok_insert)
  then have l1: "lru_inv ?c1"
    unfolding lru_inv_def
    by (subst lru_ok_cong[where kf = "(\<lambda>e. key (elems c e))(?ele := k)"]) simp_all
  have "heap_ok (expHeap c) (recs c) (nextRec c) (PushFront ?ele (ll c)) (\<lambda>e. exp (elems ?c1 e))"
    using h unfolding heap_inv_def
    by (rule heap_ok_mono) (auto simp: PushFront_def split: if_splits)
  then have h1: "heap_inv ?c1" by (simp add: heap_inv_def)
  have out: "?out = Ok () ?c2"
    by (rule is_Ok_unit) (simp add: newExp_facts)
  have l2: "lru_inv ?c2" using l1 newExp_lru_inv[OF l1] by (cases "0 < ttl") simp_all
  have h2: "heap_inv ?c2" using h1 newExp_heap_inv[OF h1] by (cases "0 < ttl") simp_all
  have ll2: "ll ?c2 = PushFront ?ele (ll c)" and cap2: "capacity ?c2 = capacity c"
    by (simp_all add: newExp_facts)
  have d2: "distinct (ll ?c2)" using l2 by (simp add: lru_inv_def lru_ok_def)
  have eq: "SetWithTTL k v ttl now c =
      (if int (length (ll ?c2)) > capacity ?c2 then Ok () (removeOldestLocked ?c2) else Ok () ?c2)"
    using k by (simp add: SetWithTTL_def Let_def case_outcome_ok newExp_facts)
  show ?thesis
  proof (cases "int (length (ll ?c2)) > capacity ?c2")
    case True
    have "ll (removeOldestLocked ?c2) = butlast (ll ?c2)" using d2 by (rule removeOldestLocked_ll)
    then have "int (length (ll (removeOldestLocked ?c2))) \<le> capacity (removeOldestLocked ?c2)"
      using cap by (simp add: ll2 cap2 PushFront_def)
    then have "cache_inv (removeOldestLocked ?c2)"
      using l2 h2 by (simp add: cache_inv_def lru_inv_removeOldestLocked removeOldestLocked_heap_inv)
    then show ?thesis using True eq by simp
  next
    case False
    then have "cache_inv ?c2" using l2 h2 by (simp add: cache_inv_def)
    then show ?thesis using False eq by simp
  qed
qed

lemma SetWithTTL_inv:
  assumes "cache_inv c"
  shows "is_Ok (SetWithTTL k v ttl now c) \<and> cache_inv (state_of (SetWithTTL k v ttl now c))"
proof (cases "cache c k")
  case None
  then show ?thesis using assms by (simp add: SetWithTTL_insert)
next
  case (Some ele)
  have l: "lru_inv c" and h: "heap_inv c" and cap: "int (length (ll c)) \<le> capacity c"
    using assms by (simp_all add: cache_inv_def)
  show ?thesis
    using SetWithTTL_update_heap[OF h l Some] SetWithTTL_update_lru[OF l Some] cap
    by (simp add: cache_inv_def SetWithTTL_update_frame[OF Some])
qed

lemma heap_Init_empty: "heap_Init ([], rs) = Ok () ([], rs)"
  by (simp add: heap_Init_def Len_def heap_Init_loop.simps)

lemma NewCache_ok:
  "0 < n \<Longrightarrow> NewCache n = Inr \<lparr>capacity = n, ll = [], cache = Map.empty, expHeap = [],
      elems = (\<lambda>_. undefined), recs = (\<lambda>_. undefined), nextElem = 0, nextRec = 0\<rparr>"
  by (simp add: NewCache_def hp_of_def heap_Init_empty with_hp_def set_hp_def)

lemma Dump_ok: "Dump c = Ok () (c\<lparr>ll := [], cache := Map.empty, expHeap := []\<rparr>)"
  by (simp add: Dump_def hp_of_def heap_Init_empty with_hp_def set_hp_def)

lemma hp_wf_empty: "hp_wf ([], rs)"
  by (simp add: hp_wf_def)

lemma inv_empty:
  "0 \<le> capacity c \<Longrightarrow> ll c = [] \<Longrightarrow> cache c = Map.empty \<Longrightarrow> expHeap c = [] \<Longrightarrow> cache_inv c"
  by (simp add: cache_inv_def lru_inv_def lru_ok_def heap_inv_def heap_ok_def hp_wf_empty)

lemma NewCache_inv:
  assumes "NewCache n = Inr c"
  shows "cache_inv c"
proof (cases "0 < n")
  case True
  show ?thesis
    using assms True unfolding NewCache_ok[OF True] by (intro inv_empty) auto
next
  case False
  then show ?thesis using assms by (simp add: NewCache_def)
qed

lemma Dump_inv: "cache_inv c \<Longrightarrow> cache_inv (state_of (Dump c))"
  unfolding Dump_ok by (intro inv_empty) (simp_all add: cache_inv_def)

lemma heap_inv_unlink:
  assumes "heap_inv c"
  shows "heap_inv (c\<lparr>ll := Remove ele (ll c), cache := m\<rparr>)"
proof -
  have "heap_ok (expHeap c) (recs c) (nextRec c) (Remove ele (ll c)) (\<lambda>e. exp (elems c e))"
    using assms unfolding heap_inv_def
  proof (rule heap_ok_mono)
    fix e r assume "e \<in> set (Remove ele (ll c))" "exp (elems c e) = Some r"
    then show "e \<in> set (ll c) \<and> exp (elems c e) = Some r"
      using set_remove1_subset[of ele "ll c"] by (auto simp: Remove_def)
  qed
  then show ?thesis by (simp add: heap_inv_def)
qed

lemma heap_inv_cancel:
  assumes "heap_inv c"
  shows "heap_inv (c\<lparr>recs := (recs c)(r := (recs c r)\<lparr>canceled := True\<rparr>)\<rparr>)"
proof -
  have "heap_ok (expHeap c) ((recs c)(r := (recs c r)\<lparr>canceled := True\<rparr>)) (nextRec c) (ll c)
      (\<lambda>e. exp (elems c e))"
    using assms unfolding heap_inv_def
    by (subst heap_ok_index_cong[where rs = "recs c"]) simp_all
  then show ?thesis by (simp add: heap_inv_def)
qed

lemma length_Remove: "length (Remove e l) \<le> length l"
  by (simp add: Remove_def length_remove1)

lemma Get_inv: "cache_inv c \<Longrightarrow> cache_inv (snd (Get k now c))"
proof -
  assume i: "cache_inv c"
  then have l: "lru_inv c" and h: "heap_inv c" and cap: "int (length (ll c)) \<le> capacity c"
    by (simp_all add: cache_inv_def)
  have h': "heap_inv (snd (Get k now c))"
  proof (cases "cache c k")
    case None
    then show ?thesis using h by (simp add: Get_def)
  next
    case (Some ele)
    have "heap_ok (expHeap c) (recs c) (nextRec c) (MoveToFront ele (ll c)) (\<lambda>e. exp (elems c e))"
      using h unfolding heap_inv_def by (rule heap_ok_mono) auto
    then have "heap_inv (c\<lparr>ll := MoveToFront ele (ll c)\<rparr>)" by (simp add: heap_inv_def)
    then show ?thesis using Some heap_inv_unlink[OF h] by (simp add: Get_def Let_def)
  qed
  have "length (ll (snd (Get k now c))) \<le> length (ll c)"
    using length_Remove by (auto simp: Get_def Let_def split: option.splits)
  moreover have "capacity (snd (Get k now c)) = capacity c"
    by (simp add: Get_def Let_def split: option.splits)
  ultimately show ?thesis using lru_inv_Get[OF l] h' cap by (simp add: cache_inv_def)
qed

lemma Delete_inv: "cache_inv c \<Longrightarrow> cache_inv (Delete k c)"
proof -
  assume i: "cache_inv c"
  then have l: "lru_inv c" and h: "heap_inv c" and cap: "int (length (ll c)) \<le> capacity c"
    by (simp_all add: cache_inv_def)
  have h': "heap_inv (Delete k c)"
    using h heap_inv_unlink[OF h] heap_inv_unlink[OF heap_inv_cancel[OF h]]
    by (simp add: Delete_def Let_def split: option.splits)
  have "length (ll (Delete k c)) \<le> length (ll c)"
    using length_Remove by (auto simp: Delete_def Let_def split: option.splits)
  moreover have "capacity (Delete k c) = capacity c"
    by (simp add: Delete_def Let_def split: option.splits)
  ultimately show ?thesis using lru_inv_Delete[OF l] h' cap by (simp add: cache_inv_def)
qed

section \<open>Invariants under the sweeper and SetCapacity\<close>

lemma popRoot_inv:
  assumes i: "cache_inv c" and ne: "expHeap c \<noteq> []"
  obtains H' where "popRoot c = Ok (expHeap c ! 0) (set_hp H' c)" "cache_inv (set_hp H' c)"
    "mset (fst H') = mset (expHeap c) - {#expHeap c ! 0#}"
    "\<forall>r. unindexed (snd H' r) = unindexed (recs c r)"
proof -
  let ?x = "expHeap c ! 0"
  let ?ef = "\<lambda>e. exp (elems c e)"
  obtain H' where p: "popRoot c = Ok ?x (set_hp H' c)"
    and m: "mset (fst H') = mset (expHeap c) - {#?x#}"
    and u: "\<forall>r. unindexed (snd H' r) = unindexed (recs c r)"
    and f: "\<forall>r. r \<notin> set (expHeap c) \<longrightarrow> snd H' r = recs c r"
    and ix: "index (snd H' ?x) = - 1"
    and w: "hp_wf (hp_of c) \<longrightarrow> hp_wf H' \<and> ?x \<notin> set (fst H')"
    using popRoot_facts[OF ne] by blast
  have l: "lru_inv c" and h: "heap_inv c" and cap: "int (length (ll c)) \<le> capacity c"
    using i by (simp_all add: cache_inv_def)
  have wf: "hp_wf (expHeap c, recs c)" and lt: "\<forall>r\<in>set (expHeap c). r < nextRec c"
    and g: "\<forall>e\<in>set (ll c). \<forall>r. ?ef e = Some r \<longrightarrow> r \<in> set (expHeap c) \<or> index (recs c r) = - 1"
    using h unfolding heap_inv_def heap_ok_def by blast+
  have wf': "hp_wf (fst H', snd H')" using w wf by (simp add: hp_of_def)
  have mem: "r \<in> set (fst H') \<longleftrightarrow> r \<in> set (expHeap c)" if "r \<noteq> ?x" for r
  proof -
    have "r \<in># mset (fst H') \<longleftrightarrow> r \<in># mset (expHeap c)"
      unfolding m using that by (auto dest: in_diffD simp: insert_DiffM2 in_diff_count)
    then show ?thesis by simp
  qed
  have sub: "r \<in> set (expHeap c)" if "r \<in> set (fst H')" for r
  proof -
    have "r \<in># mset (expHeap c) - {#?x#}" using that m by (metis set_mset_mset)
    then have "r \<in># mset (expHeap c)" by (rule in_diffD)
    then show ?thesis by simp
  qed
  have g': "r \<in> set (fst H') \<or> index (snd H' r) = - 1"
    if e: "e \<in> set (ll c)" "?ef e = Some r" for e r
  proof (cases "r = ?x")
    case True
    then show ?thesis using ix by simp
  next
    case False
    have "r \<in> set (expHeap c) \<or> index (recs c r) = - 1" using g e by blast
    then show ?thesis using mem[OF False] f by auto
  qed
  have "heap_ok (fst H') (snd H') (nextRec c) (ll c) ?ef"
    unfolding heap_ok_def using wf' sub lt g' by blast
  then have "heap_inv (set_hp H' c)" by (simp add: heap_inv_def)
  moreover have "lru_inv (set_hp H' c)" using l by (simp add: lru_inv_def)
  ultimately have "cache_inv (set_hp H' c)" using cap by (simp add: cache_inv_def)
  then show ?thesis using that p m u by blast
qed

lemma inv_unlink:
  assumes i: "cache_inv c" and k: "cache c k = Some ele"
  shows "cache_inv (c\<lparr>ll := Remove ele (ll c), cache := (cache c)(k := None)\<rparr>)"
proof -
  have l: "lru_inv c" and h: "heap_inv c" and cap: "int (length (ll c)) \<le> capacity c"
    using i by (simp_all add: cache_inv_def)
  have e: "ele \<in> set (ll c)" "key (elems c ele) = k" using l k lru_inv_cacheD by metis+
  have "lru_inv (c\<lparr>ll := Remove ele (ll c), cache := (cache c)(k := None)\<rparr>)"
    using lru_ok_unlink[OF l[unfolded lru_inv_def] e(1)] e(2) by (simp add: lru_inv_def)
  then show ?thesis
    using heap_inv_unlink[OF h, where ele = ele and m = "(cache c)(k := None)"] cap length_Remove[of ele "ll c"]
    by (simp add: cache_inv_def)
qed

lemma sweepBody_inv:
  assumes i: "cache_inv c" and ne: "expHeap c \<noteq> []"
  shows "is_Ok (sweepBody now c) \<and> cache_inv (state_of (sweepBody now c))"
proof -
  obtain H' where p: "popRoot c = Ok (expHeap c ! 0) (set_hp H' c)" and i': "cache_inv (set_hp H' c)"
    using popRoot_inv[OF i ne] by blast
  let ?c1 = "set_hp H' c"
  have un: "cache_inv (?c1\<lparr>ll := Remove ele (ll ?c1), cache := (cache ?c1)(k := None)\<rparr>)"
    if "cache c k = Some ele" for k ele
    using inv_unlink[OF i', where k = k and ele = ele] that by simp
  show ?thesis
    using i i' p un
    by (auto simp: sweepBody_def Let_def split: option.splits)
qed

lemma sweep_inv: "cache_inv c \<Longrightarrow> is_Ok (sweep now c) \<and> cache_inv (state_of (sweep now c))"
proof (induction now c rule: sweep.induct)
  case (1 now c)
  show ?case
  proof (cases "Len (hp_of c) > 0")
    case False
    then show ?thesis using 1(2) by (subst (1 2) sweep.simps) simp
  next
    case True
    then have ne: "expHeap c \<noteq> []" by (auto simp: Len_def)
    obtain again c' where b: "sweepBody now c = Ok again c'" and i': "cache_inv c'"
      using sweepBody_inv[OF 1(2) ne, of now] by (cases "sweepBody now c") auto
    show ?thesis
    proof (cases again)
      case True
      then show ?thesis using 1(1)[OF \<open>Len (hp_of c) > 0\<close> b True i'] b \<open>Len (hp_of c) > 0\<close>
        by (subst (1 2) sweep.simps) simp
    next
      case False
      then show ?thesis using b i' \<open>Len (hp_of c) > 0\<close> by (subst (1 2) sweep.simps) simp
    qed
  qed
qed

lemma waitStep_inv: "cache_inv c \<Longrightarrow> is_Ok (waitStep now c) \<and> cache_inv (state_of (waitStep now c))"
proof -
  assume i: "cache_inv c"
  show ?thesis
  proof (cases "expHeap c = []")
    case True
    then show ?thesis using i by (simp add: waitStep_def Len_def)
  next
    case False
    obtain H' where p: "popRoot c = Ok (expHeap c ! 0) (set_hp H' c)" and i': "cache_inv (set_hp H' c)"
      using popRoot_inv[OF i False] by blast
    show ?thesis using False i i' p by (simp add: waitStep_def Len_def Let_def)
  qed
qed

lemma evictLoop_take:
  assumes "lru_inv c" "heap_inv c" "0 \<le> capacity c"
  shows "\<exists>c'. evictLoop c = Some c' \<and> lru_inv c' \<and> heap_inv c' \<and>
           ll c' = take (nat (capacity c)) (ll c) \<and> capacity c' = capacity c \<and>
           elems c' = elems c \<and> expHeap c' = expHeap c"
  using assms
proof (induction "length (ll c)" arbitrary: c rule: less_induct)
  case less
  show ?case
  proof (cases "int (length (ll c)) > capacity c")
    case False
    then show ?thesis using less.prems by (subst evictLoop.simps) simp
  next
    case True
    let ?c1 = "removeOldestLocked c"
    have d: "distinct (ll c)" using less.prems(1) by (simp add: lru_inv_def lru_ok_def)
    have ne: "ll c \<noteq> []" using True less.prems(3) by auto
    have l1: "ll ?c1 = butlast (ll c)" using d by (rule removeOldestLocked_ll)
    then have "length (ll ?c1) < length (ll c)" using ne by simp
    moreover have "lru_inv ?c1" "heap_inv ?c1" "0 \<le> capacity ?c1"
      using less.prems by (simp_all add: lru_inv_removeOldestLocked removeOldestLocked_heap_inv)
    ultimately obtain c' where c': "evictLoop ?c1 = Some c'" "lru_inv c'" "heap_inv c'"
      "ll c' = take (nat (capacity ?c1)) (ll ?c1)" "capacity c' = capacity ?c1"
      "elems c' = elems ?c1" "expHeap c' = expHeap ?c1"
      using less.hyps[of ?c1] by blast
    have "take (nat (capacity c)) (butlast (ll c)) = take (nat (capacity c)) (ll c)"
      using True less.prems(3) by (intro take_butlast) auto
    then have "ll c' = take (nat (capacity c)) (ll c)" using c'(4) l1 by simp
    moreover have "evictLoop c = Some c'" using True c'(1) by (subst evictLoop.simps) simp
    ultimately show ?thesis using c' by simp
  qed
qed

lemma SetCapacity_ok:
  assumes i: "cache_inv c" and n: "0 < n"
  shows "\<exists>c'. SetCapacity n c = Some (Ok () c') \<and> cache_inv c' \<and>
           ll c' = take (nat n) (ll c) \<and> capacity c' = n \<and> elems c' = elems c \<and>
           expHeap c' = expHeap c"
proof -
  let ?c0 = "c\<lparr>capacity := n\<rparr>"
  have "lru_inv ?c0" "heap_inv ?c0" "0 \<le> capacity ?c0"
    using i n by (simp_all add: cache_inv_def lru_inv_def heap_inv_def)
  then obtain c' where c': "evictLoop ?c0 = Some c'" "lru_inv c'" "heap_inv c'"
      "ll c' = take (nat (capacity ?c0)) (ll ?c0)" "capacity c' = capacity ?c0"
      "elems c' = elems ?c0" "expHeap c' = expHeap ?c0"
    using evictLoop_take[of ?c0] by blast
  have "int (length (ll c')) \<le> capacity c'" using c'(4,5) n by simp
  then have "cache_inv c'" using c'(2,3) by (simp add: cache_inv_def)
  moreover have "SetCapacity n c = Some (Ok () c')" using n c'(1) by (simp add: SetCapacity_def)
  ultimately show ?thesis using c'(4-7) by simp
qed

lemma SetCapacity_inv:
  assumes "cache_inv c"
  shows "\<exists>out. SetCapacity n c = Some out \<and> cache_inv (state_of out)"
proof (cases "0 < n")
  case True
  then show ?thesis using SetCapacity_ok[OF assms True] by auto
next
  case False
  then show ?thesis using assms by (simp add: SetCapacity_def)
qed

section \<open>Reachable states and the claims\<close>

inductive reachable :: "('k, 'v::zero) Cache \<Rightarrow> bool" where
  new: "NewCache n = Inr c \<Longrightarrow> reachable c"
| get: "reachable c \<Longrightarrow> reachable (snd (Get k now c))"
| set: "reachable c \<Longrightarrow> reachable (state_of (Set k v now c))"
| setttl: "reachable c \<Longrightarrow> reachable (state_of (SetWithTTL k v ttl now c))"
| delete: "reachable c \<Longrightarrow> reachable (Delete k c)"
| dump: "reachable c \<Longrightarrow> reachable (state_of (Dump c))"
| setcap: "reachable c \<Longrightarrow> SetCapacity n c = Some out \<Longrightarrow> reachable (state_of out)"
| wait: "reachable c \<Longrightarrow> reachable (state_of (waitStep now c))"
| sweep: "reachable c \<Longrightarrow> reachable (state_of (sweep now c))"

lemma reachable_inv: "reachable c \<Longrightarrow> cache_inv c"
proof (induction rule: reachable.induct)
  case (new n c)
  then show ?case by (rule NewCache_inv)
next
  case (setcap c n out)
  then show ?case using SetCapacity_inv[of c n] by auto
qed (simp_all add: Get_inv Set_def SetWithTTL_inv Delete_inv Dump_inv waitStep_inv sweep_inv)






lemma reachable_example:
  "reachable (state_of (Set (3::nat) (5::int) 0 (projr (NewCache 1))))"
proof -
  have "NewCache 1 = Inr (projr (NewCache 1 :: error + (nat, int) Cache))"
    by (simp add: NewCache_ok)
  then show ?thesis by (intro reachable.set reachable.new)
qed

lemma example_fields:
  "cache (state_of (Set (3::nat) (5::int) 0 (projr (NewCache 1)))) = [3 \<mapsto> 0]"
  "ll (state_of (Set (3::nat) (5::int) 0 (projr (NewCache 1)))) = [0]"
  "elems (state_of (Set (3::nat) (5::int) 0 (projr (NewCache 1)))) 0 =
     \<lparr>key = 3, val = 5, expiration = 0, exp = None\<rparr>"
  by (simp_all add: NewCache_ok Set_def SetWithTTL_def Let_def PushFront_def)

text \<open>
  C2. \<open>Get\<close> on a reachable state: an absent key is not found and the state is
  unchanged; a present key whose expiration is set and strictly before \<open>now\<close> is not
  found, and its element leaves the list and the table; any other present key is
  found with its value, and its element becomes the front of the list.
\<close>

theorem Get_behaviour:
  assumes "reachable c"
  shows "(cache c k = None \<longrightarrow> Get k now c = ((0, False), c)) \<and>
         (\<forall>ele. cache c k = Some ele \<and>
                (\<not> IsZero (expiration (elems c ele)) \<and> expiration (elems c ele) < now) \<longrightarrow>
            fst (Get k now c) = (0, False) \<and>
            cache (snd (Get k now c)) = (cache c)(k := None) \<and>
            ll (snd (Get k now c)) = remove1 ele (ll c) \<and>
            ele \<notin> set (ll (snd (Get k now c)))) \<and>
         (\<forall>ele. cache c k = Some ele \<and>
                \<not> (\<not> IsZero (expiration (elems c ele)) \<and> expiration (elems c ele) < now) \<longrightarrow>
            fst (Get k now c) = (val (elems c ele), True) \<and>
            cache (snd (Get k now c)) = cache c \<and>
            ll (snd (Get k now c)) = ele # remove1 ele (ll c))"
proof -
  have l: "lru_inv c" using reachable_inv[OF assms] by (simp add: cache_inv_def)
  then have d: "distinct (ll c)" by (simp add: lru_inv_def lru_ok_def)
  have m: "ele \<in> set (ll c)" if "cache c k = Some ele" for ele
    using lru_inv_cacheD[OF l that] by simp
  show ?thesis
    using d m
    by (auto simp: Get_def Let_def After_def Remove_def MoveToFront_eq)
qed

theorem Get_behaviour_witness:
  "reachable (state_of (Set (3::nat) (5::int) 0 (projr (NewCache 1)))) \<and>
   cache (state_of (Set (3::nat) (5::int) 0 (projr (NewCache 1)))) 3 = Some 0 \<and>
   fst (Get 3 7 (state_of (Set (3::nat) (5::int) 0 (projr (NewCache 1))))) = (5, True) \<and>
   ll (snd (Get 3 7 (state_of (Set (3::nat) (5::int) 0 (projr (NewCache 1)))))) = [0] \<and>
   Get 2 7 (state_of (Set (3::nat) (5::int) 0 (projr (NewCache 1)))) =
     ((0, False), state_of (Set (3::nat) (5::int) 0 (projr (NewCache 1))))"
  using Get_behaviour[OF reachable_example, of 3 7] Get_behaviour[OF reachable_example, of 2 7]
    reachable_example
  by (simp add: example_fields IsZero_def)

text \<open>
  C10. Whenever \<open>Get\<close> reports not-found, the value it returns is the zero value.
\<close>

theorem Get_not_found_zero:
  "\<not> snd (fst (Get k now c)) \<Longrightarrow> fst (fst (Get k now c)) = 0"
  by (auto simp: Get_def Let_def split: option.splits if_splits)

theorem Get_not_found_zero_witness:
  "\<not> snd (fst (Get 2 7 (state_of (Set (3::nat) (5::int) 0 (projr (NewCache 1)))))) \<and>
   fst (fst (Get 2 7 (state_of (Set (3::nat) (5::int) 0 (projr (NewCache 1)))))) = 0"
proof -
  have h: "\<not> snd (fst (Get 2 7 (state_of (Set (3::nat) (5::int) 0 (projr (NewCache 1))))))"
    by (simp add: Get_def example_fields)
  show ?thesis using h Get_not_found_zero[OF h] by simp
qed

lemma SetWithTTL_update_elems:
  assumes "cache c k = Some ele"
  shows "e \<noteq> ele \<Longrightarrow> elems (state_of (SetWithTTL k v ttl now c)) e = elems c e"
    "val (elems (state_of (SetWithTTL k v ttl now c)) ele) = v"
    "expiration (elems (state_of (SetWithTTL k v ttl now c)) ele) = (if 0 < ttl then Add now ttl else 0)"
  using assms
  by (simp_all add: SetWithTTL_def Let_def newExp_facts split: option.splits)

text \<open>
  C9. \<open>Set\<close> (which is \<open>SetWithTTL\<close> with ttl 0) and \<open>SetWithTTL\<close> on a key that is
  present return without panic and leave the table, the elements of the list and
  its length as they were; only the entry of that key is rewritten, and its key
  stays.
\<close>

theorem update_keeps_live_entries:
  assumes "reachable c" "cache c k = Some ele"
  shows "Set k v now c = SetWithTTL k v 0 now c \<and>
         is_Ok (SetWithTTL k v ttl now c) \<and>
         length (ll (state_of (SetWithTTL k v ttl now c))) = length (ll c) \<and>
         set (ll (state_of (SetWithTTL k v ttl now c))) = set (ll c) \<and>
         cache (state_of (SetWithTTL k v ttl now c)) = cache c \<and>
         (\<forall>e. key (elems (state_of (SetWithTTL k v ttl now c)) e) = key (elems c e)) \<and>
         (\<forall>e. e \<noteq> ele \<longrightarrow> elems (state_of (SetWithTTL k v ttl now c)) e = elems c e)"
  using SetWithTTL_inv[OF reachable_inv[OF assms(1)], of k v ttl now]
  by (simp add: Set_def SetWithTTL_update_frame[OF assms(2)] SetWithTTL_update_elems[OF assms(2)])

theorem update_keeps_live_entries_witness:
  "reachable (state_of (Set (3::nat) (5::int) 0 (projr (NewCache 1)))) \<and>
   cache (state_of (Set (3::nat) (5::int) 0 (projr (NewCache 1)))) 3 = Some 0 \<and>
   is_Ok (SetWithTTL 3 6 9 7 (state_of (Set (3::nat) (5::int) 0 (projr (NewCache 1))))) \<and>
   length (ll (state_of (SetWithTTL 3 6 9 7 (state_of (Set (3::nat) (5::int) 0 (projr (NewCache 1))))))) = 1 \<and>
   cache (state_of (SetWithTTL 3 6 9 7 (state_of (Set (3::nat) (5::int) 0 (projr (NewCache 1))))))
     = [3 \<mapsto> 0]"
proof -
  have k: "cache (state_of (Set (3::nat) (5::int) 0 (projr (NewCache 1)))) 3 = Some 0"
    by (simp add: example_fields)
  show ?thesis
    using update_keeps_live_entries[OF reachable_example k, of 6 7 9] reachable_example
    by (simp add: example_fields)
qed

text \<open>
  C8. \<open>NewCache\<close> panics with the configuration error exactly when the capacity is
  not positive, and otherwise returns an empty cache of that capacity; \<open>SetCapacity\<close>
  panics exactly when the new capacity is not positive, and then the state is the
  one it was called on.
\<close>

theorem invalid_capacity_panics:
  "((NewCache n :: error + ('k, 'v) Cache) = Inl InvalidConfiguration \<longleftrightarrow> n \<le> 0) \<and>
   (0 < n \<longrightarrow> (\<exists>c :: ('k, 'v) Cache. NewCache n = Inr c \<and> capacity c = n \<and> ll c = [] \<and>
                  cache c = Map.empty \<and> expHeap c = [])) \<and>
   ((\<exists>e s. SetCapacity m (c0 :: ('k, 'v) Cache) = Some (Panic e s)) \<longleftrightarrow> m \<le> 0) \<and>
   (m \<le> 0 \<longrightarrow> SetCapacity m c0 = Some (Panic InvalidConfiguration c0))"
proof -
  have "(NewCache n :: error + ('k, 'v) Cache) = Inl InvalidConfiguration \<longleftrightarrow> n \<le> 0"
  proof (cases "0 < n")
    case True
    then show ?thesis by (simp add: NewCache_ok)
  next
    case False
    then show ?thesis by (simp add: NewCache_def)
  qed
  moreover have "0 < n \<longrightarrow> (\<exists>c :: ('k, 'v) Cache. NewCache n = Inr c \<and> capacity c = n \<and> ll c = [] \<and>
                  cache c = Map.empty \<and> expHeap c = [])"
    by (simp add: NewCache_ok)
  moreover have "(\<exists>e s. SetCapacity m c0 = Some (Panic e s)) \<longleftrightarrow> m \<le> 0"
    by (auto simp: SetCapacity_def split: option.splits)
  moreover have "m \<le> 0 \<longrightarrow> SetCapacity m c0 = Some (Panic InvalidConfiguration c0)"
    by (simp add: SetCapacity_def)
  ultimately show ?thesis by blast
qed

theorem invalid_capacity_panics_witness:
  "(NewCache 0 :: error + (nat, int) Cache) = Inl InvalidConfiguration \<and>
   (\<exists>c :: (nat, int) Cache. NewCache 2 = Inr c \<and> capacity c = 2 \<and> ll c = []) \<and>
   SetCapacity (- 1) (state_of (Set (3::nat) (5::int) 0 (projr (NewCache 1)))) =
     Some (Panic InvalidConfiguration (state_of (Set (3::nat) (5::int) 0 (projr (NewCache 1)))))"
  using invalid_capacity_panics[where 'k = nat and 'v = int, of 0 "- 1"
      "state_of (Set (3::nat) (5::int) 0 (projr (NewCache 1)))"]
    invalid_capacity_panics[where 'k = nat and 'v = int, of 2 "- 1"
      "state_of (Set (3::nat) (5::int) 0 (projr (NewCache 1)))"]
  by auto

definition demo3 :: "(nat, int) Cache" where
  "demo3 = state_of (Set 5 30 0 (state_of (Set 4 20 0 (state_of (Set 3 10 0 (projr (NewCache 3)))))))"

lemma demo3_reachable: "reachable demo3"
proof -
  have "NewCache 3 = Inr (projr (NewCache 3 :: error + (nat, int) Cache))"
    by (simp add: NewCache_ok)
  then show ?thesis unfolding demo3_def by (intro reachable.set reachable.new)
qed

lemma demo3_fields:
  "ll demo3 = [2, 1, 0]" "cache demo3 = [3 \<mapsto> 0, 4 \<mapsto> 1, 5 \<mapsto> 2]" "capacity demo3 = 3"
  by (simp_all add: demo3_def NewCache_ok Set_def SetWithTTL_def Let_def PushFront_def
      numeral_2_eq_2)

text \<open>
  C7. \<open>SetCapacity\<close> with a positive capacity on a reachable state returns; the
  capacity is the new one, the list is cut to its first (most recently used)
  \<open>newCapacity\<close> elements, and the table keeps exactly the keys of those elements.
  When the list was not longer than the new capacity, nothing is removed. Afterwards
  \<open>Get\<close> finds a key exactly when its entry is among those elements and has not
  expired.
\<close>

theorem SetCapacity_keeps_most_recent:
  assumes "reachable c" "0 < n"
  shows "\<exists>c'. SetCapacity n c = Some (Ok () c') \<and> capacity c' = n \<and>
           ll c' = take (nat n) (ll c) \<and> int (length (ll c')) \<le> n \<and>
           (\<forall>k e. cache c' k = Some e \<longleftrightarrow> cache c k = Some e \<and> e \<in> set (take (nat n) (ll c))) \<and>
           elems c' = elems c \<and>
           (int (length (ll c)) \<le> n \<longrightarrow> ll c' = ll c \<and> cache c' = cache c) \<and>
           (\<forall>k t. snd (fst (Get k t c')) \<longleftrightarrow>
              (\<exists>e. cache c k = Some e \<and> e \<in> set (take (nat n) (ll c)) \<and>
                   \<not> (expiration (elems c e) \<noteq> 0 \<and> expiration (elems c e) < t)))"
proof -
  have i: "cache_inv c" using assms(1) by (rule reachable_inv)
  obtain c' where c': "SetCapacity n c = Some (Ok () c')" "cache_inv c'"
    "ll c' = take (nat n) (ll c)" "capacity c' = n" "elems c' = elems c"
    using SetCapacity_ok[OF i assms(2)] by blast
  have m: "cache c k = Some e \<longleftrightarrow> e \<in> set (ll c) \<and> key (elems c e) = k" for k e
    using i by (simp add: cache_inv_def lru_inv_def lru_ok_def)
  have m': "cache c' k = Some e \<longleftrightarrow> e \<in> set (take (nat n) (ll c)) \<and> key (elems c e) = k" for k e
    using c'(2) unfolding cache_inv_def lru_inv_def lru_ok_def c'(3) c'(5) by blast
  have sub: "e \<in> set (ll c)" if "e \<in> set (take (nat n) (ll c))" for e
    using that by (rule in_set_takeD)
  have eq: "cache c' k = Some e \<longleftrightarrow> cache c k = Some e \<and> e \<in> set (take (nat n) (ll c))" for k e
    using m m' sub by blast
  have len: "int (length (ll c')) \<le> n" using c'(3) assms(2) by simp
  have same: "ll c' = ll c \<and> cache c' = cache c" if "int (length (ll c)) \<le> n"
  proof -
    have t: "take (nat n) (ll c) = ll c" using that by simp
    have "cache c' k = cache c k" for k
    proof (cases "cache c' k")
      case None
      then show ?thesis using eq[of k] t m by (cases "cache c k") auto
    next
      case (Some e)
      then show ?thesis using eq[of k e] by simp
    qed
    then show ?thesis using c'(3) t by (simp add: fun_eq_iff)
  qed
  have get: "snd (fst (Get k t c')) \<longleftrightarrow>
      (\<exists>e. cache c k = Some e \<and> e \<in> set (take (nat n) (ll c)) \<and>
           \<not> (expiration (elems c e) \<noteq> 0 \<and> expiration (elems c e) < t))" for k t
  proof (cases "cache c' k")
    case None
    then have "\<not> (cache c k = Some e \<and> e \<in> set (take (nat n) (ll c)))" for e
      using eq[of k e] by simp
    then show ?thesis using None by (auto simp: Get_def)
  next
    case (Some e0)
    then have in0: "cache c k = Some e0" "e0 \<in> set (take (nat n) (ll c))"
      using eq[of k e0] by simp_all
    have "snd (fst (Get k t c')) \<longleftrightarrow>
        \<not> (expiration (elems c e0) \<noteq> 0 \<and> expiration (elems c e0) < t)"
      using Some c'(5) by (simp add: Get_def Let_def IsZero_def After_def)
    then show ?thesis using in0 by auto
  qed
  show ?thesis using c'(1,4,3,5) len eq same get by blast
qed

theorem SetCapacity_keeps_most_recent_witness:
  "reachable demo3 \<and> (0::int) < 2 \<and>
   (\<exists>c'. SetCapacity 2 demo3 = Some (Ok () c') \<and> capacity c' = 2 \<and> ll c' = [2, 1] \<and>
      cache c' 3 = None \<and> cache c' 4 = Some 1 \<and> cache c' 5 = Some 2)"
proof -
  obtain c' where c': "SetCapacity 2 demo3 = Some (Ok () c')" "capacity c' = 2"
    "ll c' = take (nat 2) (ll demo3)"
    "\<forall>k e. cache c' k = Some e \<longleftrightarrow> cache demo3 k = Some e \<and> e \<in> set (take (nat 2) (ll demo3))"
    using SetCapacity_keeps_most_recent[OF demo3_reachable, of 2] by auto
  have "ll c' = [2, 1]" using c'(3) by (simp add: demo3_fields)
  moreover have "cache c' 4 = Some 1" "cache c' 5 = Some 2"
    using c'(4)[rule_format, of 4 1] c'(4)[rule_format, of 5 2] by (simp_all add: demo3_fields)
  moreover have "cache c' 3 \<noteq> Some e" for e
    using c'(4)[rule_format, of 3 e] by (auto simp: demo3_fields)
  then have "cache c' 3 = None" by (cases "cache c' 3") auto
  ultimately show ?thesis using c'(1,2) demo3_reachable by auto
qed

lemma SetWithTTL_reuse:
  assumes k: "cache c k = Some ele" and t: "0 < ttl" and r: "exp (elems c ele) = Some r"
  shows "(expHeap (state_of (SetWithTTL k v ttl now c)), recs (state_of (SetWithTTL k v ttl now c))) =
           state_of (heap_Fix (expHeap c, (recs c)(r := (recs c r)\<lparr>eexpiration := Add now ttl\<rparr>))
                              (index (recs c r)))"
    "exp (elems (state_of (SetWithTTL k v ttl now c)) ele) = Some r"
    "mset (expHeap (state_of (SetWithTTL k v ttl now c))) = mset (expHeap c)"
    "unindexed (recs (state_of (SetWithTTL k v ttl now c)) r) = (ekey (recs c r), Add now ttl, canceled (recs c r))"
    "nextRec (state_of (SetWithTTL k v ttl now c)) = nextRec c"
proof -
  let ?rs = "(recs c)(r := (recs c r)\<lparr>eexpiration := Add now ttl\<rparr>)"
  let ?F = "state_of (heap_Fix (expHeap c, ?rs) (index (recs c r)))"
  let ?c' = "state_of (SetWithTTL k v ttl now c)"
  show 1: "(expHeap ?c', recs ?c') = ?F"
    using k t r by (simp add: SetWithTTL_def Let_def hp_of_def)
  show "exp (elems ?c' ele) = Some r"
    using k t r by (simp add: SetWithTTL_def Let_def)
  show "nextRec ?c' = nextRec c"
    using k t r by (simp add: SetWithTTL_def Let_def)
  have s: "hp_same (expHeap c, ?rs) ?F" by (rule heap_Fix_same)
  have e: "expHeap ?c' = fst ?F" "recs ?c' = snd ?F" using 1 by (metis fst_conv, metis snd_conv)
  show "mset (expHeap ?c') = mset (expHeap c)"
    using s unfolding e by (simp add: hp_same_def)
  have "unindexed (snd ?F r) = unindexed (?rs r)" using s by (simp add: hp_same_def)
  then show "unindexed (recs ?c' r) = (ekey (recs c r), Add now ttl, canceled (recs c r))"
    unfolding e by (simp add: unindexed_def)
qed

lemma SetWithTTL_attach:
  assumes k: "cache c k = Some ele" and t: "0 < ttl" and r: "exp (elems c ele) = None"
  shows "exp (elems (state_of (SetWithTTL k v ttl now c)) ele) = Some (nextRec c)"
    "mset (expHeap (state_of (SetWithTTL k v ttl now c))) = add_mset (nextRec c) (mset (expHeap c))"
    "unindexed (recs (state_of (SetWithTTL k v ttl now c)) (nextRec c)) = (k, Add now ttl, False)"
proof -
  let ?c' = "state_of (SetWithTTL k v ttl now c)"
  let ?c1 = "c\<lparr>elems := (elems c)(ele := (elems c ele)\<lparr>val := v, expiration := Add now ttl\<rparr>),
                ll := MoveToFront ele (ll c)\<rparr>"
  have eq: "?c' = state_of (newExp k (Add now ttl) ele ?c1)"
    using k t r by (simp add: SetWithTTL_def Let_def)
  show "exp (elems ?c' ele) = Some (nextRec c)"
    unfolding eq by (simp add: newExp_facts)
  show "mset (expHeap ?c') = add_mset (nextRec c) (mset (expHeap c))"
    unfolding eq by (simp add: newExp_def Let_def heap_Push_mset hp_of_def)
  show "unindexed (recs ?c' (nextRec c)) = (k, Add now ttl, False)"
    unfolding eq by (simp add: newExp_def Let_def heap_Push_unindexed hp_of_def, simp add: unindexed_def)
qed

lemma SetWithTTL_cancel:
  assumes k: "cache c k = Some ele" and t: "\<not> 0 < ttl"
  shows "exp (elems (state_of (SetWithTTL k v ttl now c)) ele) = None"
    "expHeap (state_of (SetWithTTL k v ttl now c)) = expHeap c"
    "recs (state_of (SetWithTTL k v ttl now c)) =
       (case exp (elems c ele) of
          Some r \<Rightarrow> (recs c)(r := (recs c r)\<lparr>canceled := True\<rparr>)
        | None \<Rightarrow> recs c)"
  using k t by (simp_all add: SetWithTTL_def Let_def split: option.splits)

subsection \<open>The heap order on reachable states\<close>

lemma heap_ordered_root_min:
  assumes "heap_ordered H"
  shows "0 \<le> p \<Longrightarrow> p < Len H \<Longrightarrow> key_at H 0 \<le> key_at H p"
proof (induction "nat p" arbitrary: p rule: less_induct)
  case less
  show ?case
  proof (cases "p = 0")
    case True
    then show ?thesis by simp
  next
    case False
    then have p: "0 < p" using less.prems by simp
    let ?q = "(p - 1) div 2"
    have q: "0 \<le> ?q" "?q < Len H" "nat ?q < nat p" using p less.prems by auto
    have "key_at H 0 \<le> key_at H ?q" by (rule less.hyps[OF q(3) q(1) q(2)])
    moreover have "key_at H ?q \<le> key_at H p"
      using assms p less.prems(2) by (simp add: heap_ordered_def ok_at_def)
    ultimately show ?thesis by simp
  qed
qed

lemma heap_ordered_recs_cong:
  assumes "\<And>r. r \<in> set h \<Longrightarrow> eexpiration (rs' r) = eexpiration (rs r)"
  shows "heap_ordered (h, rs') \<longleftrightarrow> heap_ordered (h, rs)"
  by (rule heap_ordered_keys) (simp_all add: assms)

lemma heap_Fix_neg: "heap_Fix H (- 1) = Ok () H"
proof -
  have "(- 1 - 1) sdiv 2 = (- 1 :: int)" by (simp add: signed_divide_int_def)
  then have "up H (- 1) = Ok () H" by (subst up.simps) (simp add: Let_def)
  then show ?thesis by (simp add: heap_Fix_def down_def down_loop_neg)
qed

lemma heap_Fix_ordered:
  assumes wf: "hp_wf (h, rs)" and ord: "heap_ordered (h, rs)"
    and r: "r \<in> set h \<or> index (rs r) = - 1"
  shows "heap_ordered (state_of (heap_Fix (h, rs(r := (rs r)\<lparr>eexpiration := t\<rparr>)) (index (rs r))))"
proof (cases "r \<in> set h")
  case False
  then have "index (rs r) = - 1" using r by simp
  moreover have "heap_ordered (h, rs(r := (rs r)\<lparr>eexpiration := t\<rparr>))"
    using ord False by (subst heap_ordered_recs_cong[where rs = rs]) auto
  ultimately show ?thesis by (simp add: heap_Fix_neg)
next
  case True
  let ?H = "(h, rs(r := (rs r)\<lparr>eexpiration := t\<rparr>))"
  obtain p where p: "p < length h" "h ! p = r" using True by (auto simp: in_set_conv_nth)
  have d: "distinct h" using wf by (simp add: hp_wf_def)
  have ix: "index (rs r) = int p" using wf p by (auto simp: hp_wf_def)
  have len: "Len ?H = int (length h)" by (simp add: Len_def)
  have i: "inb ?H (int p)" using p by (simp add: inb_def Len_def)
  have k: "key_at ?H q = key_at (h, rs) q" if "0 \<le> q" "q < int (length h)" "q \<noteq> int p" for q
  proof -
    have "nat q < length h" "nat q \<noteq> p" using that by auto
    then have "h ! nat q \<noteq> r" using p d by (auto simp: nth_eq_iff_index_eq)
    then show ?thesis by (simp add: key_at_def)
  qed
  have okH: "key_at (h, rs) ((c - 1) div 2) \<le> key_at (h, rs) c" if "0 < c" "c < int (length h)" for c
    using ord that by (simp add: heap_ordered_def ok_at_def Len_def)
  have A: "\<forall>c. 0 < c \<and> c < Len ?H \<and> c \<noteq> int p \<and> (c - 1) div 2 \<noteq> int p \<longrightarrow> ok_at ?H c"
  proof (intro allI impI)
    fix c assume c: "0 < c \<and> c < Len ?H \<and> c \<noteq> int p \<and> (c - 1) div 2 \<noteq> int p"
    then have c1: "0 < c" and c2: "c < int (length h)" and c3: "c \<noteq> int p"
      and c4: "(c - 1) div 2 \<noteq> int p" by (simp_all add: len)
    have q: "0 \<le> (c - 1) div 2" "(c - 1) div 2 < int (length h)" using c1 c2 by auto
    have "key_at ?H c = key_at (h, rs) c" using k[of c] c1 c2 c3 by simp
    moreover have "key_at ?H ((c - 1) div 2) = key_at (h, rs) ((c - 1) div 2)"
      using k[OF q c4] .
    ultimately show "ok_at ?H c" using okH[OF c1 c2] by (simp add: ok_at_def)
  qed
  have B: "\<forall>c. 0 < int p \<and> 0 < c \<and> c < Len ?H \<and> (c - 1) div 2 = int p \<longrightarrow>
             key_at ?H ((int p - 1) div 2) \<le> key_at ?H c"
  proof (intro allI impI)
    fix c assume c: "0 < int p \<and> 0 < c \<and> c < Len ?H \<and> (c - 1) div 2 = int p"
    then have c0: "0 < int p" and c1: "0 < c" and c2: "c < int (length h)"
      and c3: "(c - 1) div 2 = int p" by (simp_all add: len)
    have cp: "c \<noteq> int p" using c1 c3 by presburger
    have q: "0 \<le> (int p - 1) div 2" "(int p - 1) div 2 < int (length h)"
      "(int p - 1) div 2 \<noteq> int p" using c0 p(1) by auto
    have "key_at ?H c = key_at (h, rs) c" using k[of c] c1 c2 cp by simp
    moreover have "key_at ?H ((int p - 1) div 2) = key_at (h, rs) ((int p - 1) div 2)"
      using k[OF q] .
    moreover have "key_at (h, rs) ((int p - 1) div 2) \<le> key_at (h, rs) (int p)"
      using okH[of "int p"] c0 p(1) by simp
    moreover have "key_at (h, rs) (int p) \<le> key_at (h, rs) c"
      using okH[OF c1 c2] unfolding c3 .
    ultimately show "key_at ?H ((int p - 1) div 2) \<le> key_at ?H c" by simp
  qed
  show ?thesis unfolding ix by (rule heap_Fix_ordered_at[OF i A B])
qed


lemma hp_of_set_hp [simp]: "hp_of (set_hp H c) = H"
  by (simp add: hp_of_def)

lemma heap_ordered_cong:
  assumes "expHeap c' = expHeap c"
    and "\<And>r. r \<in> set (expHeap c) \<Longrightarrow> eexpiration (recs c' r) = eexpiration (recs c r)"
  shows "heap_ordered (hp_of c') \<longleftrightarrow> heap_ordered (hp_of c)"
  unfolding hp_of_def assms(1) by (rule heap_ordered_recs_cong) (rule assms(2))

lemma Get_ordered: "heap_ordered (hp_of (snd (Get k now c))) \<longleftrightarrow> heap_ordered (hp_of c)"
  by (rule heap_ordered_cong) (simp_all add: Get_def Let_def split: option.splits)

lemma removeOldestLocked_ordered:
  "heap_ordered (hp_of (removeOldestLocked c)) \<longleftrightarrow> heap_ordered (hp_of c)"
  by (rule heap_ordered_cong) (simp_all add: removeOldestLocked_def Let_def split: option.splits)

lemma Delete_ordered: "heap_ordered (hp_of (Delete k c)) \<longleftrightarrow> heap_ordered (hp_of c)"
  by (rule heap_ordered_cong) (simp_all add: Delete_def Let_def split: option.splits)

lemma Dump_ordered: "heap_ordered (hp_of (state_of (Dump c)))"
  by (simp add: Dump_ok hp_of_def heap_ordered_empty)

lemma NewCache_ordered:
  assumes "NewCache n = Inr c"
  shows "heap_ordered (hp_of c)"
proof (cases "0 < n")
  case True
  then have "expHeap c = []" using assms by (auto simp: NewCache_ok)
  then show ?thesis by (simp add: hp_of_def heap_ordered_empty)
next
  case False
  then show ?thesis using assms by (simp add: NewCache_def)
qed

lemma newExp_ordered:
  assumes "heap_ordered (hp_of c)" "nextRec c \<notin> set (expHeap c)"
  shows "heap_ordered (hp_of (state_of (newExp k t ele c)))"
proof -
  let ?rs = "(recs c)(nextRec c := \<lparr>ekey = k, eexpiration = t, index = 0, canceled = False\<rparr>)"
  have "heap_ordered (expHeap c, ?rs)"
    using assms by (subst heap_ordered_recs_cong[where rs = "recs c"]) (auto simp: hp_of_def)
  then have "heap_ordered (state_of (heap_Push (expHeap c, ?rs) (nextRec c)))"
    by (rule heap_Push_ordered)
  then show ?thesis by (simp add: newExp_def Let_def hp_of_def)
qed

lemma popRoot_ordered:
  assumes "heap_ordered (hp_of c)" "expHeap c \<noteq> []"
  shows "heap_ordered (hp_of (state_of (popRoot c)))"
  using heap_Pop_ordered[of "hp_of c"] assms by (simp add: popRoot_def)

lemma SetWithTTL_ordered:
  assumes i: "cache_inv c" and o: "heap_ordered (hp_of c)"
  shows "heap_ordered (hp_of (state_of (SetWithTTL k v ttl now c)))"
proof -
  let ?c' = "state_of (SetWithTTL k v ttl now c)"
  have l: "lru_inv c" and h: "heap_inv c" using i by (simp_all add: cache_inv_def)
  have fresh: "nextRec c \<notin> set (expHeap c)"
    using h unfolding heap_inv_def heap_ok_def by blast
  show ?thesis
  proof (cases "cache c k")
    case None
    let ?t = "if 0 < ttl then Add now ttl else 0"
    let ?c1 = "c\<lparr>elems := (elems c)(nextElem c := \<lparr>key = k, val = v, expiration = ?t, exp = None\<rparr>),
                  nextElem := Suc (nextElem c), ll := PushFront (nextElem c) (ll c),
                  cache := (cache c)(k \<mapsto> nextElem c)\<rparr>"
    let ?c2 = "if 0 < ttl then state_of (newExp k ?t (nextElem c) ?c1) else ?c1"
    have o1: "heap_ordered (hp_of ?c1)" using o by (simp add: hp_of_def)
    have o2: "heap_ordered (hp_of ?c2)"
    proof (cases "0 < ttl")
      case True
      have "heap_ordered (hp_of (state_of (newExp k (Add now ttl) (nextElem c) ?c1)))"
        using o1 fresh by (intro newExp_ordered) simp_all
      then show ?thesis using True by simp
    next
      case False
      then show ?thesis using o1 by simp
    qed
    have "?c' = ?c2 \<or> ?c' = removeOldestLocked ?c2"
      using None by (simp add: SetWithTTL_def Let_def case_outcome_ok newExp_facts)
    then show ?thesis using o2 by (auto simp: removeOldestLocked_ordered)
  next
    case (Some ele)
    have e: "ele \<in> set (ll c)" using lru_inv_cacheD[OF l Some] by simp
    show ?thesis
    proof (cases "0 < ttl")
      case False
      have "heap_ordered (hp_of ?c') \<longleftrightarrow> heap_ordered (hp_of c)"
        by (rule heap_ordered_cong)
          (simp_all add: SetWithTTL_cancel[OF Some False] split: option.splits)
      then show ?thesis using o by simp
    next
      case True
      show ?thesis
      proof (cases "exp (elems c ele)")
        case None
        let ?c1 = "c\<lparr>elems := (elems c)(ele := (elems c ele)\<lparr>val := v, expiration := Add now ttl\<rparr>),
                      ll := MoveToFront ele (ll c)\<rparr>"
        have eq: "?c' = state_of (newExp k (Add now ttl) ele ?c1)"
          using Some True None by (simp add: SetWithTTL_def Let_def)
        have "heap_ordered (hp_of ?c1)" using o by (simp add: hp_of_def)
        then show ?thesis unfolding eq using fresh by (intro newExp_ordered) simp_all
      next
        case r: (Some r)
        have wf: "hp_wf (expHeap c, recs c)" using h by (simp add: heap_inv_def heap_ok_def)
        have rr: "r \<in> set (expHeap c) \<or> index (recs c r) = - 1"
          using h e r unfolding heap_inv_def heap_ok_def by blast
        have "hp_of ?c' = state_of (heap_Fix (expHeap c, (recs c)(r := (recs c r)\<lparr>eexpiration := Add now ttl\<rparr>))
                                             (index (recs c r)))"
          using SetWithTTL_reuse(1)[OF Some True r, of v now] by (simp add: hp_of_def)
        then show ?thesis using heap_Fix_ordered[OF wf _ rr] o by (simp add: hp_of_def)
      qed
    qed
  qed
qed

lemma sweepBody_ordered:
  assumes o: "heap_ordered (hp_of c)" and ne: "expHeap c \<noteq> []"
  shows "heap_ordered (hp_of (state_of (sweepBody now c)))"
proof -
  obtain H' where p: "popRoot c = Ok (expHeap c ! 0) (set_hp H' c)"
    using popRoot_facts[OF ne] by blast
  have "heap_ordered H'" using popRoot_ordered[OF o ne] unfolding p by simp
  then show ?thesis
    using o p by (auto simp: sweepBody_def Let_def hp_of_def split: option.splits)
qed

lemma waitStep_ordered:
  assumes o: "heap_ordered (hp_of c)"
  shows "heap_ordered (hp_of (state_of (waitStep now c)))"
proof (cases "expHeap c = []")
  case True
  then show ?thesis using o by (simp add: waitStep_def Len_def)
next
  case False
  obtain H' where p: "popRoot c = Ok (expHeap c ! 0) (set_hp H' c)"
    using popRoot_facts[OF False] by blast
  have "heap_ordered H'" using popRoot_ordered[OF o False] unfolding p by simp
  then show ?thesis using False o p by (simp add: waitStep_def Len_def Let_def)
qed

lemma sweep_ordered: "heap_ordered (hp_of c) \<Longrightarrow> heap_ordered (hp_of (state_of (sweep now c)))"
proof (induction now c rule: sweep.induct)
  case (1 now c)
  show ?case
  proof (cases "Len (hp_of c) > 0")
    case False
    then show ?thesis using 1(2) by (subst sweep.simps) simp
  next
    case True
    then have ne: "expHeap c \<noteq> []" by (auto simp: Len_def)
    have o': "heap_ordered (hp_of (state_of (sweepBody now c)))"
      using sweepBody_ordered[OF 1(2) ne] .
    show ?thesis
    proof (cases "sweepBody now c")
      case (Panic e c')
      then show ?thesis using o' True by (subst sweep.simps) simp
    next
      case (Ok again c')
      show ?thesis
      proof (cases again)
        case True
        then show ?thesis using 1(1)[OF \<open>Len (hp_of c) > 0\<close> Ok True] o' Ok \<open>Len (hp_of c) > 0\<close>
          by (subst sweep.simps) simp
      next
        case False
        then show ?thesis using Ok o' \<open>Len (hp_of c) > 0\<close> by (subst sweep.simps) simp
      qed
    qed
  qed
qed

lemma evictLoop_ordered:
  "evictLoop c = Some c' \<Longrightarrow> heap_ordered (hp_of c') \<longleftrightarrow> heap_ordered (hp_of c)"
proof (induction rule: evictLoop.raw_induct[rotated 1, consumes 1])
  case (1 evictLoop' c c')
  show ?case
  proof (cases "int (length (ll c)) > capacity c")
    case True
    then show ?thesis using 1 by (simp add: removeOldestLocked_ordered)
  next
    case False
    then show ?thesis using 1(2) by simp
  qed
qed

lemma SetCapacity_ordered:
  assumes "SetCapacity n c = Some out" "heap_ordered (hp_of c)"
  shows "heap_ordered (hp_of (state_of out))"
proof (cases "0 < n")
  case False
  then show ?thesis using assms by (auto simp: SetCapacity_def)
next
  case True
  then obtain c' where c': "evictLoop (c\<lparr>capacity := n\<rparr>) = Some c'" "out = Ok () c'"
    using assms(1) by (auto simp: SetCapacity_def split: option.splits)
  have "heap_ordered (hp_of (c\<lparr>capacity := n\<rparr>))" using assms(2) by (simp add: hp_of_def)
  then show ?thesis using evictLoop_ordered[OF c'(1)] c'(2) by simp
qed

lemma reachable_ordered: "reachable c \<Longrightarrow> heap_ordered (hp_of c)"
proof (induction rule: reachable.induct)
  case (new n c)
  then show ?case by (rule NewCache_ordered)
next
  case (get c k now)
  then show ?case by (simp add: Get_ordered)
next
  case (set c k v now)
  then show ?case unfolding Set_def by (intro SetWithTTL_ordered reachable_inv)
next
  case (setttl c k v ttl now)
  then show ?case by (intro SetWithTTL_ordered reachable_inv)
next
  case (delete c k)
  then show ?case by (simp add: Delete_ordered)
next
  case (dump c)
  show ?case by (rule Dump_ordered)
next
  case (setcap c n out)
  then show ?case using SetCapacity_ordered by blast
next
  case (wait c now)
  then show ?case by (intro waitStep_ordered)
next
  case (sweep c now)
  then show ?case by (intro sweep_ordered)
qed

definition demoTTL :: "(nat, int) Cache" where
  "demoTTL = state_of (SetWithTTL 3 5 10 100 (projr (NewCache 2)))"

lemma demoTTL_reachable: "reachable demoTTL"
proof -
  have "NewCache 2 = Inr (projr (NewCache 2 :: error + (nat, int) Cache))"
    by (simp add: NewCache_ok)
  then show ?thesis unfolding demoTTL_def by (intro reachable.setttl reachable.new)
qed

lemma demoTTL_fields:
  "cache demoTTL 3 = Some 0" "exp (elems demoTTL 0) = Some 0" "ll demoTTL = [0]"
  by (simp_all add: demoTTL_def NewCache_ok SetWithTTL_def Let_def PushFront_def newExp_facts
      case_outcome_ok)

text \<open>
  A second state for C5: two keys with a ttl, so that the heap holds two records and
  the update of the first key moves its record below the other one.
\<close>

lemma heap_ordered_min:
  assumes "heap_ordered (h, rs)" "r \<in> set h"
  shows "eexpiration (rs (h ! 0)) \<le> eexpiration (rs r)"
proof -
  obtain p where p: "p < length h" "h ! p = r" using assms(2) by (auto simp: in_set_conv_nth)
  have "key_at (h, rs) 0 \<le> key_at (h, rs) (int p)"
    using p(1) by (intro heap_ordered_root_min[OF assms(1)]) (simp_all add: Len_def)
  then show ?thesis using p(2) by (simp add: key_at_def)
qed

definition demoTTL2 :: "(nat, int) Cache" where
  "demoTTL2 = state_of (SetWithTTL 4 7 20 100 demoTTL)"

lemmas heap_eval = heap_Push_def Push_def up.simps[of "(h, rs)" j for h rs j] Len_def inb_def Less_def
  Before_def Swap_def signed_divide_int_def hp_of_def set_hp_def with_hp_def newExp_def

lemma demoTTL_eval:
  "demoTTL =
     \<lparr>capacity = 2, ll = [0], cache = [3 \<mapsto> 0], expHeap = [0],
      elems = (\<lambda>_. undefined)(0 := \<lparr>key = 3, val = 5, expiration = 110, exp = Some 0\<rparr>),
      recs = (\<lambda>_. undefined)(0 := \<lparr>ekey = 3, eexpiration = 110, index = 0, canceled = False\<rparr>),
      nextElem = 1, nextRec = 1\<rparr>"
  unfolding demoTTL_def
  by (simp add: NewCache_ok SetWithTTL_def Let_def PushFront_def Add_def heap_eval)

lemma demoTTL2_eval:
  "demoTTL2 =
     \<lparr>capacity = 2, ll = [1, 0], cache = [3 \<mapsto> 0, 4 \<mapsto> 1], expHeap = [0, 1],
      elems = (\<lambda>_. undefined)
                (0 := \<lparr>key = 3, val = 5, expiration = 110, exp = Some 0\<rparr>,
                 1 := \<lparr>key = 4, val = 7, expiration = 120, exp = Some 1\<rparr>),
      recs = (\<lambda>_. undefined)
               (0 := \<lparr>ekey = 3, eexpiration = 110, index = 0, canceled = False\<rparr>,
                1 := \<lparr>ekey = 4, eexpiration = 120, index = 1, canceled = False\<rparr>),
      nextElem = 2, nextRec = 2\<rparr>"
  unfolding demoTTL2_def demoTTL_eval
  by (simp add: SetWithTTL_def Let_def PushFront_def Add_def heap_eval numeral_2_eq_2)

lemma demoTTL2_reachable: "reachable demoTTL2"
  unfolding demoTTL2_def by (intro reachable.setttl demoTTL_reachable)

lemma demoTTL2_fields:
  "cache demoTTL2 3 = Some 0" "exp (elems demoTTL2 0) = Some 0" "expHeap demoTTL2 = [0, 1]"
  by (simp_all add: demoTTL2_eval)

lemma demoTTL2_fix:
  "expHeap (state_of (SetWithTTL 3 6 50 105 demoTTL2)) = [1, 0]"
  "eexpiration (recs (state_of (SetWithTTL 3 6 50 105 demoTTL2)) 0) = 155"
  "eexpiration (recs (state_of (SetWithTTL 3 6 50 105 demoTTL2)) (Suc 0)) = 120"
  "index (recs (state_of (SetWithTTL 3 6 50 105 demoTTL2)) 0) = 1"
  "index (recs (state_of (SetWithTTL 3 6 50 105 demoTTL2)) (Suc 0)) = 0"
  unfolding demoTTL2_eval
  by (simp_all add: SetWithTTL_def Let_def MoveToFront_def Add_def heap_Fix_def down_def
      down_loop.simps[of "(h, rs)" i n for h rs i n] heap_eval numeral_2_eq_2)

text \<open>
  C5. \<open>SetWithTTL\<close> on a present key of a reachable state returns without panic,
  rewrites the value and the expiration of the entry in place, and moves its element
  to the front. With a positive ttl it keeps the record the entry points to, writes
  the new expiration into it and runs \<open>heap.Fix\<close> at its index (the heap holds the
  same records, and no other record changes its key, expiration or flag), or, when the
  entry has no record, pushes a fresh one for the key. With a ttl that is not positive
  it sets the \<open>canceled\<close> flag of the attached record and detaches it, and the heap
  slice is unchanged. In every case the heap is again a min-heap on the expirations
  as they are after the call: each record's \<open>index\<close> is its position, no record
  expires before its parent, and so none expires before the root.
\<close>

theorem SetWithTTL_existing_key:
  assumes "reachable c" "cache c k = Some ele"
  shows "let c' = state_of (SetWithTTL k v ttl now c);
             t = (if 0 < ttl then Add now ttl else 0)
         in is_Ok (SetWithTTL k v ttl now c) \<and>
            key (elems c' ele) = k \<and> val (elems c' ele) = v \<and> expiration (elems c' ele) = t \<and>
            ll c' = ele # remove1 ele (ll c) \<and> cache c' = cache c \<and>
            hp_wf (hp_of c') \<and> heap_ordered (hp_of c') \<and>
            (\<forall>r\<in>set (expHeap c'). eexpiration (recs c' (expHeap c' ! 0)) \<le> eexpiration (recs c' r)) \<and>
            (0 < ttl \<longrightarrow>
               (\<forall>r. exp (elems c ele) = Some r \<longrightarrow>
                  exp (elems c' ele) = Some r \<and> eexpiration (recs c' r) = t \<and>
                  (expHeap c', recs c') =
                     state_of (heap_Fix (expHeap c, (recs c)(r := (recs c r)\<lparr>eexpiration := t\<rparr>))
                                        (index (recs c r))) \<and>
                  mset (expHeap c') = mset (expHeap c) \<and> nextRec c' = nextRec c \<and>
                  (\<forall>r'. r' \<noteq> r \<longrightarrow> unindexed (recs c' r') = unindexed (recs c r'))) \<and>
               (exp (elems c ele) = None \<longrightarrow>
                  exp (elems c' ele) = Some (nextRec c) \<and> nextRec c \<notin> set (expHeap c) \<and>
                  mset (expHeap c') = add_mset (nextRec c) (mset (expHeap c)) \<and>
                  ekey (recs c' (nextRec c)) = k \<and> eexpiration (recs c' (nextRec c)) = t \<and>
                  \<not> canceled (recs c' (nextRec c)))) \<and>
            (\<not> 0 < ttl \<longrightarrow>
               exp (elems c' ele) = None \<and> expHeap c' = expHeap c \<and>
               (\<forall>r. exp (elems c ele) = Some r \<longrightarrow>
                  recs c' = (recs c)(r := (recs c r)\<lparr>canceled := True\<rparr>)) \<and>
               (exp (elems c ele) = None \<longrightarrow> recs c' = recs c))"
proof -
  let ?c' = "state_of (SetWithTTL k v ttl now c)"
  have i: "cache_inv c" using assms(1) by (rule reachable_inv)
  then have l: "lru_inv c" and h: "heap_inv c" by (simp_all add: cache_inv_def)
  have e: "ele \<in> set (ll c)" "key (elems c ele) = k"
    using lru_inv_cacheD[OF l assms(2)] by simp_all
  have ok: "is_Ok (SetWithTTL k v ttl now c)" using SetWithTTL_inv[OF i] by simp
  have base: "key (elems ?c' ele) = k" "val (elems ?c' ele) = v"
    "expiration (elems ?c' ele) = (if 0 < ttl then Add now ttl else 0)"
    "ll ?c' = ele # remove1 ele (ll c)" "cache ?c' = cache c"
    using e by (simp_all add: SetWithTTL_update_frame[OF assms(2)]
        SetWithTTL_update_elems[OF assms(2)] MoveToFront_eq)
  have r': "reachable ?c'" using assms(1) by (rule reachable.setttl)
  have wf: "hp_wf (hp_of ?c')"
    using reachable_inv[OF r'] by (simp add: cache_inv_def heap_inv_def heap_ok_def hp_of_def)
  have ord: "heap_ordered (hp_of ?c')" using r' by (rule reachable_ordered)
  have root: "\<forall>r\<in>set (expHeap ?c'). eexpiration (recs ?c' (expHeap ?c' ! 0)) \<le> eexpiration (recs ?c' r)"
    using heap_ordered_min[of "expHeap ?c'" "recs ?c'"] ord by (simp add: hp_of_def)
  have fresh: "nextRec c \<notin> set (expHeap c)"
    using h unfolding heap_inv_def heap_ok_def by blast
  have reuse: "exp (elems ?c' ele) = Some r \<and> eexpiration (recs ?c' r) = Add now ttl \<and>
      (expHeap ?c', recs ?c') =
         state_of (heap_Fix (expHeap c, (recs c)(r := (recs c r)\<lparr>eexpiration := Add now ttl\<rparr>))
                            (index (recs c r))) \<and>
      mset (expHeap ?c') = mset (expHeap c) \<and> nextRec ?c' = nextRec c \<and>
      (\<forall>r'. r' \<noteq> r \<longrightarrow> unindexed (recs ?c' r') = unindexed (recs c r'))"
    if t: "0 < ttl" and r: "exp (elems c ele) = Some r" for r
  proof -
    let ?rs = "(recs c)(r := (recs c r)\<lparr>eexpiration := Add now ttl\<rparr>)"
    let ?F = "state_of (heap_Fix (expHeap c, ?rs) (index (recs c r)))"
    note f = SetWithTTL_reuse[OF assms(2) t r, of v now]
    have "recs ?c' = snd ?F" using f(1) by (metis snd_conv)
    moreover have "unindexed (snd ?F r') = unindexed (?rs r')" for r'
      using heap_Fix_same[of "(expHeap c, ?rs)" "index (recs c r)"] by (simp add: hp_same_def)
    ultimately have "unindexed (recs ?c' r') = unindexed (recs c r')" if "r' \<noteq> r" for r'
      using that by simp
    then show ?thesis using f by (simp add: unindexed_def)
  qed
  have attach: "exp (elems ?c' ele) = Some (nextRec c) \<and>
      mset (expHeap ?c') = add_mset (nextRec c) (mset (expHeap c)) \<and>
      ekey (recs ?c' (nextRec c)) = k \<and> eexpiration (recs ?c' (nextRec c)) = Add now ttl \<and>
      \<not> canceled (recs ?c' (nextRec c))"
    if "0 < ttl" "exp (elems c ele) = None"
    using SetWithTTL_attach[OF assms(2) that, of v now] by (simp add: unindexed_def)
  have cancel: "exp (elems ?c' ele) = None \<and> expHeap ?c' = expHeap c \<and>
      (\<forall>r. exp (elems c ele) = Some r \<longrightarrow>
         recs ?c' = (recs c)(r := (recs c r)\<lparr>canceled := True\<rparr>)) \<and>
      (exp (elems c ele) = None \<longrightarrow> recs ?c' = recs c)"
    if "\<not> 0 < ttl"
    using SetWithTTL_cancel[OF assms(2) that, of v now] by (auto split: option.splits)
  show ?thesis
  proof (cases "0 < ttl")
    case True
    then show ?thesis
      unfolding Let_def using ok base wf ord root fresh reuse attach by simp
  next
    case False
    then show ?thesis
      unfolding Let_def using ok base wf ord root cancel by simp
  qed
qed

theorem SetWithTTL_existing_key_witness:
  "reachable demoTTL \<and> cache demoTTL 3 = Some 0 \<and>
   is_Ok (SetWithTTL 3 6 20 105 demoTTL) \<and>
   val (elems (state_of (SetWithTTL 3 6 20 105 demoTTL)) 0) = 6 \<and>
   expiration (elems (state_of (SetWithTTL 3 6 20 105 demoTTL)) 0) = 125 \<and>
   exp (elems (state_of (SetWithTTL 3 6 20 105 demoTTL)) 0) = Some 0 \<and>
   eexpiration (recs (state_of (SetWithTTL 3 6 20 105 demoTTL)) 0) = 125 \<and>
   exp (elems (state_of (SetWithTTL 3 6 0 105 demoTTL)) 0) = None \<and>
   expHeap (state_of (SetWithTTL 3 6 0 105 demoTTL)) = expHeap demoTTL \<and>
   reachable demoTTL2 \<and> cache demoTTL2 3 = Some 0 \<and> expHeap demoTTL2 = [0, 1] \<and>
   is_Ok (SetWithTTL 3 6 50 105 demoTTL2) \<and>
   heap_ordered (hp_of (state_of (SetWithTTL 3 6 50 105 demoTTL2))) \<and>
   hp_wf (hp_of (state_of (SetWithTTL 3 6 50 105 demoTTL2))) \<and>
   expHeap (state_of (SetWithTTL 3 6 50 105 demoTTL2)) = [1, 0] \<and>
   eexpiration (recs (state_of (SetWithTTL 3 6 50 105 demoTTL2)) 1) = 120 \<and>
   eexpiration (recs (state_of (SetWithTTL 3 6 50 105 demoTTL2)) 0) = 155"
  using SetWithTTL_existing_key[OF demoTTL_reachable demoTTL_fields(1), of 6 20 105]
    SetWithTTL_existing_key[OF demoTTL_reachable demoTTL_fields(1), of 6 0 105]
    SetWithTTL_existing_key[OF demoTTL2_reachable demoTTL2_fields(1), of 6 50 105]
    demoTTL_reachable demoTTL2_reachable
  by (simp add: Let_def demoTTL_fields demoTTL2_fields demoTTL2_fix Add_def)











definition stale_run :: "(nat, int) Cache" where
  "stale_run =
     (let s0 = projr (NewCache 2);
          s1 = state_of (SetWithTTL 3 7 10 100 s0);
          s2 = snd (Get 3 111 s1)
      in state_of (SetWithTTL 3 7 5 112 s2))"

lemma s1_eval:
  "state_of (SetWithTTL (3::nat) (7::int) 10 100 (projr (NewCache 2))) =
     \<lparr>capacity = 2, ll = [0], cache = [3 \<mapsto> 0], expHeap = [0],
      elems = (\<lambda>_. undefined)(0 := \<lparr>key = 3, val = 7, expiration = 110, exp = Some 0\<rparr>),
      recs = (\<lambda>_. undefined)(0 := \<lparr>ekey = 3, eexpiration = 110, index = 0, canceled = False\<rparr>),
      nextElem = 1, nextRec = 1\<rparr>"
  by (simp add: NewCache_ok SetWithTTL_def Let_def PushFront_def Add_def heap_eval)

lemma stale_run_eval:
  "stale_run =
     \<lparr>capacity = 2, ll = [1], cache = [3 \<mapsto> 1], expHeap = [0, 1],
      elems = (\<lambda>_. undefined)
                (0 := \<lparr>key = 3, val = 7, expiration = 110, exp = Some 0\<rparr>,
                 1 := \<lparr>key = 3, val = 7, expiration = 117, exp = Some 1\<rparr>),
      recs = (\<lambda>_. undefined)
               (0 := \<lparr>ekey = 3, eexpiration = 110, index = 0, canceled = False\<rparr>,
                1 := \<lparr>ekey = 3, eexpiration = 117, index = 1, canceled = False\<rparr>),
      nextElem = 2, nextRec = 2\<rparr>"
  unfolding stale_run_def Let_def s1_eval
  by (simp add: Get_def SetWithTTL_def Let_def PushFront_def Remove_def Add_def IsZero_def After_def
      heap_eval numeral_2_eq_2)

lemma stale_run_reachable: "reachable stale_run"
proof -
  have "NewCache 2 = Inr (projr (NewCache 2 :: error + (nat, int) Cache))"
    by (simp add: NewCache_ok)
  then show ?thesis
    unfolding stale_run_def Let_def by (intro reachable.setttl reachable.get reachable.new)
qed

text \<open>
  C4 at a reachable state. \<open>stale_run\<close> sets key 3 with a ttl at time 100, reads it at
  time 111 (after the expiration 110, so \<open>Get\<close> removes the entry but leaves its
  record in the heap, not canceled), and sets the key again with a ttl at time 112.
  The heap then holds two records of key 3, neither canceled.
\<close>

theorem two_live_records_for_one_key:
  "reachable stale_run \<and> expHeap stale_run = [0, 1] \<and>
   ekey (recs stale_run 0) = 3 \<and> ekey (recs stale_run 1) = 3 \<and>
   \<not> canceled (recs stale_run 0) \<and> \<not> canceled (recs stale_run 1)"
  using stale_run_reachable by (simp add: stale_run_eval)

text \<open>
  One iteration of the sweep loop, on any state with a non-empty heap.
\<close>

lemma sweepBody_cases:
  assumes ne: "expHeap c \<noteq> []"
  obtains H' where "popRoot c = Ok (expHeap c ! 0) (set_hp H' c)"
    "mset (fst H') = mset (expHeap c) - {#expHeap c ! 0#}"
    "ekey (snd H' (expHeap c ! 0)) = ekey (recs c (expHeap c ! 0))"
proof -
  obtain H' where p: "popRoot c = Ok (expHeap c ! 0) (set_hp H' c)"
    and m: "mset (fst H') = mset (expHeap c) - {#expHeap c ! 0#}"
    and u: "\<forall>r. unindexed (snd H' r) = unindexed (recs c r)"
    using popRoot_facts[OF ne] by blast
  have "ekey (snd H' (expHeap c ! 0)) = ekey (recs c (expHeap c ! 0))"
    using u[rule_format, of "expHeap c ! 0"] by (simp add: unindexed_def)
  then show ?thesis using that p m by blast
qed

text \<open>
  C6, as the code behaves. For the root record of a non-empty heap: a canceled
  record is popped and list and table stay as they are; a record that is not
  canceled and not yet due stops the loop with the state unchanged; a record that
  is not canceled and due is popped, and the entry now stored under its key is
  removed from list and table exactly when that entry's own expiration is set and
  not after \<open>now\<close>, whatever the expiration of the popped record is; otherwise list
  and table stay as they are. The entries themselves are never rewritten.
\<close>

theorem sweepBody_behaviour:
  assumes "expHeap c \<noteq> []"
  shows "let next = expHeap c ! 0; r = recs c next; c' = state_of (sweepBody now c)
         in is_Ok (sweepBody now c) \<and> elems c' = elems c \<and>
            (canceled r \<longrightarrow>
               result (sweepBody now c) \<and>
               mset (expHeap c') = mset (expHeap c) - {#next#} \<and>
               ll c' = ll c \<and> cache c' = cache c) \<and>
            (\<not> canceled r \<and> now < eexpiration r \<longrightarrow> sweepBody now c = Ok False c) \<and>
            (\<not> canceled r \<and> eexpiration r \<le> now \<longrightarrow>
               result (sweepBody now c) \<and>
               mset (expHeap c') = mset (expHeap c) - {#next#} \<and>
               (case cache c (ekey r) of
                  Some ele \<Rightarrow>
                    if expiration (elems c ele) \<noteq> 0 \<and> expiration (elems c ele) \<le> now
                    then ll c' = remove1 ele (ll c) \<and> cache c' = (cache c)(ekey r := None)
                    else ll c' = ll c \<and> cache c' = cache c
                | None \<Rightarrow> ll c' = ll c \<and> cache c' = cache c))"
proof -
  obtain H' where p: "popRoot c = Ok (expHeap c ! 0) (set_hp H' c)"
    and m: "mset (fst H') = mset (expHeap c) - {#expHeap c ! 0#}"
    and k: "ekey (snd H' (expHeap c ! 0)) = ekey (recs c (expHeap c ! 0))"
    using sweepBody_cases[OF assms] by blast
  show ?thesis
    using p m k
    by (auto simp: sweepBody_def Let_def Before_def IsZero_def Remove_def split: option.splits)
qed

lemma stale_run_sweepBody:
  "cache (state_of (sweepBody 120 stale_run)) 3 = None"
  "ll (state_of (sweepBody 120 stale_run)) = []"
  unfolding stale_run_eval
  by (simp_all add: sweepBody_def popRoot_def heap_Pop_def down_def
      down_loop.simps[of "(h, rs)" i n for h rs i n] Pop_def Let_def Len_def inb_def Less_def
      Before_def Swap_def hp_of_def set_hp_def with_hp_def IsZero_def Remove_def)

text \<open>
  C6 as stated fails at \<open>stale_run\<close>, swept at time 120: the root record is not
  canceled and due with expiration 110, the entry of its key has the expiration
  117, which is not that of the record, and the iteration removes the entry.
\<close>

theorem sweep_match_counterexample:
  "\<not> canceled (recs stale_run (expHeap stale_run ! 0)) \<and>
   ekey (recs stale_run (expHeap stale_run ! 0)) = 3 \<and>
   eexpiration (recs stale_run (expHeap stale_run ! 0)) = 110 \<and>
   cache stale_run 3 = Some 1 \<and>
   expiration (elems stale_run 1) = 117 \<and>
   cache (state_of (sweepBody 120 stale_run)) 3 = None \<and>
   ll (state_of (sweepBody 120 stale_run)) = []"
  using stale_run_sweepBody by (simp add: stale_run_eval)

theorem sweepBody_behaviour_witness:
  "expHeap stale_run \<noteq> [] \<and>
   is_Ok (sweepBody 120 stale_run) \<and> result (sweepBody 120 stale_run) \<and>
   mset (expHeap (state_of (sweepBody 120 stale_run))) = {#1#} \<and>
   ll (state_of (sweepBody 120 stale_run)) = [] \<and>
   cache (state_of (sweepBody 120 stale_run)) = Map.empty \<and>
   sweepBody 105 stale_run = Ok False stale_run"
proof -
  have ne: "expHeap stale_run \<noteq> []" by (simp add: stale_run_eval)
  have f: "expHeap stale_run ! 0 = 0" "\<not> canceled (recs stale_run 0)"
    "eexpiration (recs stale_run 0) = 110" "ekey (recs stale_run 0) = 3"
    "cache stale_run = [3 \<mapsto> Suc 0]" "expiration (elems stale_run (Suc 0)) = 117"
    "ll stale_run = [Suc 0]" "expHeap stale_run = [0, Suc 0]"
    by (simp_all add: stale_run_eval)
  show ?thesis
    using ne sweepBody_behaviour[OF ne, of 120] sweepBody_behaviour[OF ne, of 105]
    by (simp add: Let_def f)
qed

text \<open>
  The sweeper never removes an entry that has not expired: whatever records the heap
  holds (canceled or left behind), \<open>waitStep\<close> leaves list, table and entries as they
  are, and an entry that is gone after \<open>sweep\<close> had an expiration set and not after
  \<open>now\<close>.
\<close>

lemma waitStep_keeps_entries:
  "ll (state_of (waitStep now c)) = ll c \<and> cache (state_of (waitStep now c)) = cache c \<and>
   elems (state_of (waitStep now c)) = elems c"
proof (cases "expHeap c = []")
  case True
  then show ?thesis by (simp add: waitStep_def Len_def)
next
  case False
  obtain H' where p: "popRoot c = Ok (expHeap c ! 0) (set_hp H' c)"
    using popRoot_facts[OF False] by blast
  show ?thesis using False p by (simp add: waitStep_def Len_def Let_def)
qed

lemma sweepBody_only_expired:
  assumes "expHeap c \<noteq> []"
  shows "elems (state_of (sweepBody now c)) = elems c"
    "cache (state_of (sweepBody now c)) k = Some e \<Longrightarrow> cache c k = Some e"
    "cache c k = Some e \<Longrightarrow> cache (state_of (sweepBody now c)) k \<noteq> Some e \<Longrightarrow>
       expiration (elems c e) \<noteq> 0 \<and> expiration (elems c e) \<le> now"
proof -
  obtain H' where p: "popRoot c = Ok (expHeap c ! 0) (set_hp H' c)"
    using popRoot_facts[OF assms] by blast
  show "elems (state_of (sweepBody now c)) = elems c"
    using p by (auto simp: sweepBody_def Let_def split: option.splits)
  show "cache (state_of (sweepBody now c)) k = Some e \<Longrightarrow> cache c k = Some e"
    using p by (auto simp: sweepBody_def Let_def split: option.splits if_splits)
  show "cache c k = Some e \<Longrightarrow> cache (state_of (sweepBody now c)) k \<noteq> Some e \<Longrightarrow>
       expiration (elems c e) \<noteq> 0 \<and> expiration (elems c e) \<le> now"
    using p
    by (auto simp: sweepBody_def Let_def Before_def IsZero_def split: option.splits if_splits)
qed

lemma sweep_only_expired:
  "elems (state_of (sweep now c)) = elems c \<and>
   (\<forall>k e. cache (state_of (sweep now c)) k = Some e \<longrightarrow> cache c k = Some e) \<and>
   (\<forall>k e. cache c k = Some e \<and> cache (state_of (sweep now c)) k \<noteq> Some e \<longrightarrow>
      expiration (elems c e) \<noteq> 0 \<and> expiration (elems c e) \<le> now)"
proof (induction now c rule: sweep.induct)
  case (1 now c)
  show ?case
  proof (cases "Len (hp_of c) > 0")
    case False
    then show ?thesis by (subst (1 2 3) sweep.simps) simp
  next
    case True
    then have ne: "expHeap c \<noteq> []" by (auto simp: Len_def)
    note b = sweepBody_only_expired[OF ne, where now = now]
    show ?thesis
    proof (cases "sweepBody now c")
      case (Panic x c')
      then show ?thesis using True b by (subst (1 2 3) sweep.simps) auto
    next
      case (Ok again c')
      show ?thesis
      proof (cases again)
        case False
        then show ?thesis using True Ok b by (subst (1 2 3) sweep.simps) auto
      next
        case again: True
        have ih: "elems (state_of (sweep now c')) = elems c'"
          "\<And>k e. cache (state_of (sweep now c')) k = Some e \<Longrightarrow> cache c' k = Some e"
          "\<And>k e. cache c' k = Some e \<Longrightarrow> cache (state_of (sweep now c')) k \<noteq> Some e \<Longrightarrow>
             expiration (elems c' e) \<noteq> 0 \<and> expiration (elems c' e) \<le> now"
          using 1[OF True Ok again] by blast+
        have st: "state_of (sweep now c) = state_of (sweep now c')"
          using True Ok again by (subst sweep.simps) simp
        have c': "state_of (sweepBody now c) = c'" using Ok by simp
        have e1: "elems (state_of (sweep now c)) = elems c"
          unfolding st using ih(1) b(1) c' by simp
        have e2: "cache c k = Some e" if "cache (state_of (sweep now c)) k = Some e" for k e
          using that ih(2)[of k e] b(2)[of k e] c' unfolding st by simp
        have e3: "expiration (elems c e) \<noteq> 0 \<and> expiration (elems c e) \<le> now"
          if h: "cache c k = Some e" "cache (state_of (sweep now c)) k \<noteq> Some e" for k e
        proof (cases "cache c' k = Some e")
          case False
          then show ?thesis using b(3)[of k e] h(1) c' by simp
        next
          case True
          then show ?thesis using ih(3)[of k e] h(2) b(1) c' unfolding st by simp
        qed
        show ?thesis using e1 e2 e3 by blast
      qed
    qed
  qed
qed

end
